theory Spec2Isabelle
  imports Main
begin

section \<open>Go values and run-time panics\<close>

text \<open>
  A Go \<^verbatim>\<open>string\<close> is a sequence of bytes, which is what \<^typ>\<open>string\<close> is here.
  Go's \<^verbatim>\<open>int\<close> is modelled by \<^typ>\<open>int\<close>: every integer of the code is an index
  into, or a length of, a string held in memory, so it stays far below \<open>2 ^ 63\<close> and
  never wraps.  What the run time checks is written out: an index or a slice bound out
  of range is a panic, as is an explicit \<^verbatim>\<open>panic(v)\<close>.
\<close>

datatype panic = IndexOutOfRange | SliceOutOfRange | PanicValue string

definition bind :: "panic + 'a \<Rightarrow> ('a \<Rightarrow> panic + 'b) \<Rightarrow> panic + 'b" where
  "bind m f = (case m of Inl e \<Rightarrow> Inl e | Inr x \<Rightarrow> f x)"

text \<open>\<^verbatim>\<open>s[i]\<close>\<close>

definition str_index :: "string \<Rightarrow> int \<Rightarrow> panic + char" where
  "str_index s i = (if 0 \<le> i \<and> i < int (length s) then Inr (s ! nat i) else Inl IndexOutOfRange)"

text \<open>\<^verbatim>\<open>s[:j]\<close>\<close>

definition str_slice_to :: "string \<Rightarrow> int \<Rightarrow> panic + string" where
  "str_slice_to s j = (if 0 \<le> j \<and> j \<le> int (length s) then Inr (take (nat j) s) else Inl SliceOutOfRange)"

text \<open>The builtin \<^verbatim>\<open>copy(dst, src)\<close>: the first \<open>min (len dst) (len src)\<close> bytes.\<close>

definition copy_bytes :: "string \<Rightarrow> string \<Rightarrow> string" where
  "copy_bytes dst src = take (length dst) src @ drop (length src) dst"

text \<open>\<^verbatim>\<open>strings.HasPrefix\<close>:
  \<^verbatim>\<open>len(s) >= len(prefix) && s[:len(prefix)] == prefix\<close>.\<close>

definition strings_HasPrefix :: "string \<Rightarrow> string \<Rightarrow> bool" where
  "strings_HasPrefix s pre = (length s \<ge> length pre \<and> take (length pre) s = pre)"

section \<open>Package \<^verbatim>\<open>path\<close> of the Go standard library\<close>

text \<open>
  \<^verbatim>\<open>canonicalGo\<close> calls \<^verbatim>\<open>path.Join\<close>, which ends in \<^verbatim>\<open>path.Clean\<close>.  Both are
  translated statement by statement, with the \<^verbatim>\<open>lazybuf\<close> that \<^verbatim>\<open>Clean\<close> writes to:
  \<^verbatim>\<open>
  type lazybuf struct { s string; buf []byte; w int }
  func (b *lazybuf) index(i int) byte {
      if b.buf != nil { return b.buf[i] }
      return b.s[i]
  }
  func (b *lazybuf) append(c byte) {
      if b.buf == nil {
          if b.w < len(b.s) && b.s[b.w] == c { b.w++; return }
          b.buf = make([]byte, len(b.s))
          copy(b.buf, b.s[:b.w])
      }
      b.buf[b.w] = c
      b.w++
  }
  func (b *lazybuf) string() string {
      if b.buf == nil { return b.s[:b.w] }
      return string(b.buf[:b.w])
  }
  \<close>
\<close>

record lazybuf =
  lb_s :: string
  lb_buf :: "string option"
  lb_w :: int

definition lb_index :: "lazybuf \<Rightarrow> int \<Rightarrow> panic + char" where
  "lb_index b i = (case lb_buf b of Some bf \<Rightarrow> str_index bf i | None \<Rightarrow> str_index (lb_s b) i)"

text \<open>\<^verbatim>\<open>b.buf[b.w] = c; b.w++\<close>, on the buffer \<open>bf\<close>.\<close>

definition lb_store :: "string \<Rightarrow> lazybuf \<Rightarrow> char \<Rightarrow> panic + lazybuf" where
  "lb_store bf b c =
     (if 0 \<le> lb_w b \<and> lb_w b < int (length bf)
      then Inr (b\<lparr>lb_buf := Some (bf[nat (lb_w b) := c]), lb_w := lb_w b + 1\<rparr>)
      else Inl IndexOutOfRange)"

definition lb_append :: "lazybuf \<Rightarrow> char \<Rightarrow> panic + lazybuf" where
  "lb_append b c =
     (case lb_buf b of
        None \<Rightarrow>
          bind (if lb_w b < int (length (lb_s b))
                then bind (str_index (lb_s b) (lb_w b)) (\<lambda>x. Inr (x = c))
                else Inr False)
            (\<lambda>same.
               if same then Inr (b\<lparr>lb_w := lb_w b + 1\<rparr>)
               else bind (str_slice_to (lb_s b) (lb_w b))
                      (\<lambda>pre. lb_store (copy_bytes (replicate (length (lb_s b)) (CHR 0x00)) pre) b c))
      | Some bf \<Rightarrow> lb_store bf b c)"

definition lb_string :: "lazybuf \<Rightarrow> panic + string" where
  "lb_string b =
     (case lb_buf b of None \<Rightarrow> str_slice_to (lb_s b) (lb_w b) | Some bf \<Rightarrow> str_slice_to bf (lb_w b))"

text \<open>
  The two guards of the \<^verbatim>\<open>switch\<close> in \<^verbatim>\<open>Clean\<close> that look ahead, with Go's
  short-circuit evaluation:
  \<^verbatim>\<open>path[r] == '.' && (r+1 == n || path[r+1] == '/')\<close> and
  \<^verbatim>\<open>path[r] == '.' && path[r+1] == '.' && (r+2 == n || path[r+2] == '/')\<close>.
\<close>

definition is_dot :: "string \<Rightarrow> int \<Rightarrow> panic + bool" where
  "is_dot path r =
     bind (str_index path r) (\<lambda>c.
       if c = CHR ''.'' then
         (if r + 1 = int (length path) then Inr True
          else bind (str_index path (r + 1)) (\<lambda>c1. Inr (c1 = CHR ''/'')))
       else Inr False)"

definition is_dotdot :: "string \<Rightarrow> int \<Rightarrow> panic + bool" where
  "is_dotdot path r =
     bind (str_index path r) (\<lambda>c.
       if c = CHR ''.'' then
         bind (str_index path (r + 1)) (\<lambda>c1.
           if c1 = CHR ''.'' then
             (if r + 2 = int (length path) then Inr True
              else bind (str_index path (r + 2)) (\<lambda>c2. Inr (c2 = CHR ''/'')))
           else Inr False)
       else Inr False)"

lemma bind_cong [fundef_cong]:
  "m = m' \<Longrightarrow> (\<And>x. m' = Inr x \<Longrightarrow> f x = f' x) \<Longrightarrow> bind m f = bind m' f'"
  by (simp add: bind_def split: sum.splits)

text \<open>\<^verbatim>\<open>for out.w > dotdot && out.index(out.w) != '/' { out.w-- }\<close>\<close>

function backtrack :: "int \<Rightarrow> lazybuf \<Rightarrow> panic + lazybuf" where
  "backtrack dotdot out =
     (if lb_w out > dotdot then
        bind (lb_index out (lb_w out)) (\<lambda>c.
          if c \<noteq> CHR ''/'' then backtrack dotdot (out\<lparr>lb_w := lb_w out - 1\<rparr>) else Inr out)
      else Inr out)"
  by pat_completeness auto
termination
  by (relation "measure (\<lambda>(dotdot, out). nat (lb_w out - dotdot))") auto

text \<open>\<^verbatim>\<open>for ; r < n && path[r] != '/'; r++ { out.append(path[r]) }\<close>\<close>

function copy_element :: "string \<Rightarrow> int \<Rightarrow> lazybuf \<Rightarrow> panic + int \<times> lazybuf" where
  "copy_element path r out =
     (if r < int (length path) then
        bind (str_index path r) (\<lambda>c.
          if c \<noteq> CHR ''/'' then
            bind (lb_append out c) (\<lambda>out'. copy_element path (r + 1) out')
          else Inr (r, out))
      else Inr (r, out))"
  by pat_completeness auto
termination
  by (relation "measure (\<lambda>(path, r, out). nat (int (length path) - r))") auto

declare backtrack.simps [simp del] copy_element.simps [simp del]

lemma copy_element_mono:
  "copy_element path r out = Inr (r', out') \<Longrightarrow> r \<le> r'"
proof (induction path r out rule: copy_element.induct)
  case (1 path r out)
  show ?case
  proof (cases "r < int (length path)")
    case False
    with "1.prems" show ?thesis by (simp add: copy_element.simps [of path r out])
  next
    case True
    then obtain c where c: "str_index path r = Inr c"
      using "1.prems" by (cases "str_index path r") (auto simp: copy_element.simps [of path r out] bind_def)
    show ?thesis
    proof (cases "c = CHR ''/''")
      case True
      with \<open>r < int (length path)\<close> c "1.prems" show ?thesis
        by (simp add: copy_element.simps [of path r out] bind_def)
    next
      case False
      with \<open>r < int (length path)\<close> c "1.prems" obtain o1 where
        o1: "lb_append out c = Inr o1" and rec: "copy_element path (r + 1) o1 = Inr (r', out')"
        by (cases "lb_append out c") (auto simp: copy_element.simps [of path r out] bind_def)
      from "1.IH" [OF \<open>r < int (length path)\<close> c False o1 rec] show ?thesis by simp
    qed
  qed
qed

lemma copy_element_progress:
  assumes "r < int (length path)" "str_index path r = Inr c" "c \<noteq> CHR ''/''"
    and "copy_element path r out = Inr (r', out')"
  shows "r < r'"
proof -
  from assms obtain o1 where "copy_element path (r + 1) o1 = Inr (r', out')"
    by (cases "lb_append out c") (auto simp: copy_element.simps [of path r out] bind_def)
  from copy_element_mono [OF this] show ?thesis by simp
qed

text \<open>
  The loop of \<^verbatim>\<open>Clean\<close>:
  \<^verbatim>\<open>
  for r < n {
      switch {
      case path[r] == '/':
          r++
      case path[r] == '.' && (r+1 == n || path[r+1] == '/'):
          r++
      case path[r] == '.' && path[r+1] == '.' && (r+2 == n || path[r+2] == '/'):
          r += 2
          switch {
          case out.w > dotdot:
              out.w--
              for out.w > dotdot && out.index(out.w) != '/' { out.w-- }
          case !rooted:
              if out.w > 0 { out.append('/') }
              out.append('.')
              out.append('.')
              dotdot = out.w
          }
      default:
          if rooted && out.w != 1 || !rooted && out.w != 0 { out.append('/') }
          for ; r < n && path[r] != '/'; r++ { out.append(path[r]) }
      }
  }
  \<close>
\<close>

function Clean_loop :: "string \<Rightarrow> bool \<Rightarrow> int \<Rightarrow> int \<Rightarrow> lazybuf \<Rightarrow> panic + lazybuf" where
  "Clean_loop path rooted r dotdot out =
     (if r < int (length path) then
        bind (str_index path r) (\<lambda>c.
          if c = CHR ''/'' then Clean_loop path rooted (r + 1) dotdot out
          else bind (is_dot path r) (\<lambda>dot.
            if dot then Clean_loop path rooted (r + 1) dotdot out
            else bind (is_dotdot path r) (\<lambda>dots.
              if dots then
                (if lb_w out > dotdot then
                   bind (backtrack dotdot (out\<lparr>lb_w := lb_w out - 1\<rparr>))
                     (\<lambda>out1. Clean_loop path rooted (r + 2) dotdot out1)
                 else if \<not> rooted then
                   bind (if lb_w out > 0 then lb_append out (CHR ''/'') else Inr out) (\<lambda>out1.
                   bind (lb_append out1 (CHR ''.'')) (\<lambda>out2.
                   bind (lb_append out2 (CHR ''.'')) (\<lambda>out3.
                     Clean_loop path rooted (r + 2) (lb_w out3) out3)))
                 else Clean_loop path rooted (r + 2) dotdot out)
              else
                bind (if rooted \<and> lb_w out \<noteq> 1 \<or> \<not> rooted \<and> lb_w out \<noteq> 0
                      then lb_append out (CHR ''/'') else Inr out) (\<lambda>out1.
                bind (copy_element path r out1) (\<lambda>(r', out2).
                  Clean_loop path rooted r' dotdot out2)))))
      else Inr out)"
  by pat_completeness auto
termination
  by (relation "measure (\<lambda>(path, rooted, r, dotdot, out). nat (int (length path) - r))")
    (auto dest: copy_element_progress)

declare Clean_loop.simps [simp del]

text \<open>
  \<^verbatim>\<open>
  func Clean(path string) string {
      if path == "" { return "." }
      rooted := path[0] == '/'
      n := len(path)
      out := lazybuf{s: path}
      r, dotdot := 0, 0
      if rooted { out.append('/'); r, dotdot = 1, 1 }
      for r < n { ... }
      if out.w == 0 { return "." }
      return out.string()
  }
  \<close>
\<close>

definition path_Clean :: "string \<Rightarrow> panic + string" where
  "path_Clean path =
     (if path = [] then Inr ''.''
      else
        bind (str_index path 0) (\<lambda>c.
        let rooted = (c = CHR ''/''); out = \<lparr>lb_s = path, lb_buf = None, lb_w = 0\<rparr> in
        bind (if rooted then bind (lb_append out (CHR ''/'')) (\<lambda>out1. Inr (out1, 1, 1))
              else Inr (out, 0, 0)) (\<lambda>(out1, r, dotdot).
        bind (Clean_loop path rooted r dotdot out1) (\<lambda>out2.
          if lb_w out2 = 0 then Inr ''.'' else lb_string out2))))"

text \<open>
  \<^verbatim>\<open>
  func Join(elem ...string) string {
      size := 0
      for _, e := range elem { size += len(e) }
      if size == 0 { return "" }
      buf := make([]byte, 0, size+len(elem)-1)
      for _, e := range elem {
          if len(buf) > 0 || e != "" {
              if len(buf) > 0 { buf = append(buf, '/') }
              buf = append(buf, e...)
          }
      }
      return Clean(string(buf))
  }
  \<close>
\<close>

fun Join_loop :: "string \<Rightarrow> string list \<Rightarrow> string" where
  "Join_loop buf [] = buf"
| "Join_loop buf (e # elem) =
     Join_loop
       (if length buf > 0 \<or> e \<noteq> []
        then (if length buf > 0 then buf @ ''/'' else buf) @ e
        else buf) elem"

definition path_Join :: "string list \<Rightarrow> panic + string" where
  "path_Join elem =
     (if sum_list (map length elem) = 0 then Inr []
      else path_Clean (Join_loop [] elem))"

section \<open>Package \<^verbatim>\<open>gopdeps\<close>: the imports parser\<close>

text \<open>
  What \<^verbatim>\<open>godeps.go\<close> reads of the syntax tree of \<^verbatim>\<open>go/ast\<close>: the kind and the text of
  a basic literal, the path of an import declaration, the imports of a file.  The
  pointers that \<^verbatim>\<open>go/parser\<close> hands over are taken as non-nil.
\<close>

datatype Token = token_INT | token_FLOAT | token_IMAG | token_CHAR | token_STRING | token_other nat

record BasicLit =
  Kind :: Token
  Value :: string

record ImportSpec =
  spec_Path :: BasicLit

record File =
  Imports :: "ImportSpec list"

text \<open>A Go \<^verbatim>\<open>error\<close> value, by its message.\<close>

datatype error = Error string

text \<open>
  Modelled from the spec: the declarations of \<^verbatim>\<open>Module\<close> and \<^verbatim>\<open>ImportsParser\<close> are not
  among the sources.  A module has "its canonical root import path (a slash-separated
  string)", read by \<^verbatim>\<open>p.mod.Path()\<close>; a parser owns "a token/position tracking context",
  "the Module Context" and "an accumulated dependency set: mapping from canonical import
  path (string) to presence marker", which \<^verbatim>\<open>godeps.go\<close> uses as \<^verbatim>\<open>p.fset\<close>, \<^verbatim>\<open>p.mod\<close>
  and \<^verbatim>\<open>p.imports\<close> (a \<^verbatim>\<open>map[string]struct{}\<close>, allocated by the constructor).
\<close>

record Module =
  mod_Path :: string

record 'fs ImportsParser =
  p_fset :: 'fs
  p_mod :: Module
  p_imports :: "string \<rightharpoonup> unit"

text \<open>
  \<^verbatim>\<open>
  func (p *ImportsParser) canonicalGo(pkgPath string) string {
      if strings.HasPrefix(pkgPath, ".") {
          return path.Join(p.mod.Path(), pkgPath)
      }
      return pkgPath
  }
  \<close>
\<close>

definition canonicalGo :: "'fs ImportsParser \<Rightarrow> string \<Rightarrow> panic + string" where
  "canonicalGo p pkgPath =
     (if strings_HasPrefix pkgPath ''.''
      then path_Join [mod_Path (p_mod p), pkgPath]
      else Inr pkgPath)"

text \<open>
  \<^verbatim>\<open>
  func goToString(l *ast.BasicLit) string {
      if l.Kind == token.STRING {
          s, err := strconv.Unquote(l.Value)
          if err == nil {
              return s
          }
      }
      panic("TODO: toString - convert ast.BasicLit to string failed")
  }
  \<close>
  \<^verbatim>\<open>strconv.Unquote\<close> is the argument \<open>Unquote\<close>.
\<close>

definition goToString :: "(string \<Rightarrow> error + string) \<Rightarrow> BasicLit \<Rightarrow> panic + string" where
  "goToString Unquote l =
     (case (if Kind l = token_STRING then Unquote (Value l) else Inl (Error [])) of
        Inr s \<Rightarrow> Inr s
      | Inl err \<Rightarrow> Inl (PanicValue ''TODO: toString - convert ast.BasicLit to string failed''))"

text \<open>
  \<^verbatim>\<open>
  func (p *ImportsParser) importGo(spec *ast.ImportSpec) {
      pkgPath := p.canonicalGo(goToString(spec.Path))
      p.imports[pkgPath] = struct{}{}
  }
  \<close>
  A panic leaves \<^verbatim>\<open>*p\<close> as it was: the assignment is the last statement.
\<close>

definition importGo ::
  "(string \<Rightarrow> error + string) \<Rightarrow> 'fs ImportsParser \<Rightarrow> ImportSpec \<Rightarrow> panic + 'fs ImportsParser" where
  "importGo Unquote p spec =
     bind (goToString Unquote (spec_Path spec)) (\<lambda>s.
     bind (canonicalGo p s) (\<lambda>pkgPath.
       Inr (p\<lparr>p_imports := (p_imports p)(pkgPath \<mapsto> ())\<rparr>)))"

text \<open>
  \<^verbatim>\<open>for _, imp := range f.Imports { p.importGo(imp) }\<close>: the result is how the loop
  ends (a panic, or normally) and the parser as the loop leaves it.
\<close>

fun importGo_loop ::
  "(string \<Rightarrow> error + string) \<Rightarrow> 'fs ImportsParser \<Rightarrow> ImportSpec list
     \<Rightarrow> (panic + unit) \<times> 'fs ImportsParser" where
  "importGo_loop Unquote p [] = (Inr (), p)"
| "importGo_loop Unquote p (imp # imps) =
     (case importGo Unquote p imp of
        Inl e \<Rightarrow> (Inl e, p)
      | Inr p' \<Rightarrow> importGo_loop Unquote p' imps)"

text \<open>
  \<^verbatim>\<open>
  func (p *ImportsParser) ParseGoImport(gopfile string) (err error) {
      f, err := parser.ParseFile(p.fset, gopfile, nil, parser.ImportsOnly)
      if err != nil {
          return
      }
      for _, imp := range f.Imports {
          p.importGo(imp)
      }
      return
  }
  \<close>
  \<^verbatim>\<open>parser.ParseFile\<close> is the argument \<open>ParseFile\<close>: from the file set and the file name
  to the file set as the call leaves it and either the error or the file.  The result of
  \<^verbatim>\<open>ParseGoImport\<close> is the panic or the returned \<^verbatim>\<open>err\<close> (\<open>None\<close> for \<^verbatim>\<open>nil\<close>), and the
  parser as the call leaves it.
\<close>

definition ParseGoImport ::
  "('fs \<Rightarrow> string \<Rightarrow> 'fs \<times> (error + File)) \<Rightarrow> (string \<Rightarrow> error + string)
     \<Rightarrow> 'fs ImportsParser \<Rightarrow> string \<Rightarrow> (panic + error option) \<times> 'fs ImportsParser" where
  "ParseGoImport ParseFile Unquote p gopfile =
     (case ParseFile (p_fset p) gopfile of
        (fset', Inl err) \<Rightarrow> (Inr (Some err), p\<lparr>p_fset := fset'\<rparr>)
      | (fset', Inr f) \<Rightarrow>
          (case importGo_loop Unquote (p\<lparr>p_fset := fset'\<rparr>) (Imports f) of
             (Inl e, p') \<Rightarrow> (Inl e, p')
           | (Inr u, p') \<Rightarrow> (Inr None, p')))"

text \<open>The canonical path that \<^verbatim>\<open>importGo\<close> computes for an import declaration.\<close>

definition pkgPath_of ::
  "(string \<Rightarrow> error + string) \<Rightarrow> 'fs ImportsParser \<Rightarrow> ImportSpec \<Rightarrow> panic + string" where
  "pkgPath_of Unquote p spec = bind (goToString Unquote (spec_Path spec)) (canonicalGo p)"

text \<open>
  A caller's sequence of calls, \<^verbatim>\<open>p.ParseGoImport(f)\<close> for each file of a list in turn: it
  goes on after a returned error as after \<^verbatim>\<open>nil\<close>, and a panic ends it.  The result is
  the panic or the list of the values returned, and the parser at the end.
\<close>

fun ParseGoImports ::
  "('fs \<Rightarrow> string \<Rightarrow> 'fs \<times> (error + File)) \<Rightarrow> (string \<Rightarrow> error + string)
     \<Rightarrow> 'fs ImportsParser \<Rightarrow> string list \<Rightarrow> (panic + error option list) \<times> 'fs ImportsParser" where
  "ParseGoImports ParseFile Unquote p [] = (Inr [], p)"
| "ParseGoImports ParseFile Unquote p (gopfile # gopfiles) =
     (case ParseGoImport ParseFile Unquote p gopfile of
        (Inl e, p') \<Rightarrow> (Inl e, p')
      | (Inr err, p') \<Rightarrow>
          (case ParseGoImports ParseFile Unquote p' gopfiles of
             (Inl e, p'') \<Rightarrow> (Inl e, p'')
           | (Inr errs, p'') \<Rightarrow> (Inr (err # errs), p'')))"

text \<open>
  The canonicalized import set of one call: the canonical paths of the import
  declarations of the file, and nothing when its header does not parse.
\<close>

definition call_imports ::
  "('fs \<Rightarrow> string \<Rightarrow> 'fs \<times> (error + File)) \<Rightarrow> (string \<Rightarrow> error + string)
     \<Rightarrow> 'fs ImportsParser \<Rightarrow> string \<Rightarrow> string set" where
  "call_imports ParseFile Unquote p gopfile =
     (case snd (ParseFile (p_fset p) gopfile) of
        Inl err \<Rightarrow> {}
      | Inr f \<Rightarrow> {k. \<exists>spec\<in>set (Imports f). pkgPath_of Unquote p spec = Inr k})"

text \<open>
  What a file's header parses to does not depend on the file set it is registered in.
\<close>

definition header_of_file_only :: "('fs \<Rightarrow> string \<Rightarrow> 'fs \<times> (error + File)) \<Rightarrow> bool" where
  "header_of_file_only ParseFile =
     (\<forall>fset fset' gopfile. snd (ParseFile fset gopfile) = snd (ParseFile fset' gopfile))"

section \<open>The canonicalization that the spec describes\<close>

text \<open>
  These definitions follow the words of the spec, not the code.  The spec (4.2) joins the
  module's root path and a relative raw path "using slash-separated path-join semantics
  that normalize \<^verbatim>\<open>.\<close> and resolve \<^verbatim>\<open>..\<close> segments upward, exactly as a hierarchical
  filesystem/URL path-join would".  A path is the list of its segments, the texts between
  its slashes.
\<close>

fun cons_first :: "char \<Rightarrow> string list \<Rightarrow> string list" where
  "cons_first c [] = [[c]]"
| "cons_first c (seg # segs) = (c # seg) # segs"

fun split_slash :: "string \<Rightarrow> string list" where
  "split_slash [] = [[]]"
| "split_slash (c # cs) =
     (if c = CHR ''/'' then [] # split_slash cs else cons_first c (split_slash cs))"

fun join_slash :: "string list \<Rightarrow> string" where
  "join_slash [] = []"
| "join_slash [seg] = seg"
| "join_slash (seg # segs) = seg @ ''/'' @ join_slash segs"

text \<open>
  The segments are resolved from left to right against the segments kept so far: an empty
  segment and \<^verbatim>\<open>.\<close> change nothing, \<^verbatim>\<open>..\<close> removes the last segment kept, every other
  segment is kept.  Where \<^verbatim>\<open>..\<close> has nothing to remove the spec leaves the result open
  (section 9); this definition takes the first of the two choices offered there, "allow it
  and let it produce a syntactically odd but well-defined path": the \<^verbatim>\<open>..\<close> stays where the
  path is not rooted, and is dropped at the root of a rooted path.
\<close>

definition resolve_step :: "bool \<Rightarrow> string list \<Rightarrow> string \<Rightarrow> string list" where
  "resolve_step rooted st seg =
     (if seg = [] \<or> seg = ''.'' then st
      else if seg = ''..'' then
        (if st \<noteq> [] \<and> last st \<noteq> ''..'' then butlast st
         else if rooted then st
         else st @ [''..''])
      else st @ [seg])"

definition resolve :: "bool \<Rightarrow> string list \<Rightarrow> string list" where
  "resolve rooted segs = foldl (resolve_step rooted) [] segs"

definition is_rooted :: "string \<Rightarrow> bool" where
  "is_rooted path = (path \<noteq> [] \<and> hd path = CHR ''/'')"

definition render :: "bool \<Rightarrow> string list \<Rightarrow> string" where
  "render rooted st = (if rooted then ''/'' else []) @ join_slash st"

text \<open>The normalized path of a list of segments; the empty path is \<^verbatim>\<open>.\<close>.\<close>

definition normalized :: "bool \<Rightarrow> string list \<Rightarrow> string" where
  "normalized rooted segs =
     (let out = render rooted (resolve rooted segs) in if out = [] then ''.'' else out)"

text \<open>
  The normalized slash-join of a root path and a raw path: the segments of the root
  followed by the segments of the raw path, rooted when the root is.
\<close>

definition spec_join :: "string \<Rightarrow> string \<Rightarrow> string" where
  "spec_join root p = normalized (is_rooted root) (split_slash root @ split_slash p)"

text \<open>
  The relative-path marker of the spec, "a leading \<^verbatim>\<open>.\<close> component, e.g. \<^verbatim>\<open>./x\<close> or
  \<^verbatim>\<open>../x\<close>": the first segment of the path is \<^verbatim>\<open>.\<close> or \<^verbatim>\<open>..\<close>.
\<close>

definition relative_marker :: "string \<Rightarrow> bool" where
  "relative_marker p = (hd (split_slash p) = ''.'' \<or> hd (split_slash p) = ''..'')"

section \<open>The loop of \<^verbatim>\<open>Clean\<close> on lists\<close>

text \<open>
  For the proofs, the loop of \<^verbatim>\<open>Clean\<close> once more, on the input that is left and on the
  bytes written so far instead of on indices and a buffer.  \<open>drop_elem\<close> is the backward
  scan for the last slash, \<open>clean_abs\<close> the loop.
\<close>

function drop_elem :: "nat \<Rightarrow> string \<Rightarrow> string" where
  "drop_elem dd xs =
     (if length xs - 1 > dd \<and> last xs \<noteq> CHR ''/'' then drop_elem dd (butlast xs) else butlast xs)"
  by pat_completeness auto
termination
  by (relation "measure (\<lambda>(dd, xs). length xs)") auto

declare drop_elem.simps [simp del]

function clean_abs :: "bool \<Rightarrow> string \<Rightarrow> nat \<Rightarrow> string \<Rightarrow> string" where
  "clean_abs rooted out dd [] = out"
| "clean_abs rooted out dd (c # cs) =
     (if c = CHR ''/'' then clean_abs rooted out dd cs
      else if c = CHR ''.'' \<and> (cs = [] \<or> hd cs = CHR ''/'') then clean_abs rooted out dd cs
      else if c = CHR ''.'' \<and> hd cs = CHR ''.'' \<and> (tl cs = [] \<or> hd (tl cs) = CHR ''/'') then
        (if length out > dd then clean_abs rooted (drop_elem dd out) dd (tl cs)
         else if \<not> rooted then
           clean_abs rooted ((if out \<noteq> [] then out @ ''/'' else out) @ ''..'')
             (length ((if out \<noteq> [] then out @ ''/'' else out) @ ''..'')) (tl cs)
         else clean_abs rooted out dd (tl cs))
      else
        clean_abs rooted
          ((if rooted \<and> length out \<noteq> 1 \<or> \<not> rooted \<and> length out \<noteq> 0 then out @ ''/'' else out)
             @ takeWhile (\<lambda>x. x \<noteq> CHR ''/'') (c # cs))
          dd (dropWhile (\<lambda>x. x \<noteq> CHR ''/'') (c # cs)))"
  by pat_completeness auto
termination
  by (relation "measure (\<lambda>(rooted, out, dd, rest). length rest)")
    (auto simp: less_Suc_eq_le length_dropWhile_le)

text \<open>
  The bytes that a \<^verbatim>\<open>lazybuf\<close> stands for, and what holds of it throughout \<^verbatim>\<open>Clean\<close>: the
  write index is within the input's length, which is the length of the buffer once it is
  allocated.
\<close>

definition lb_bytes :: "lazybuf \<Rightarrow> string" where
  "lb_bytes b = (case lb_buf b of None \<Rightarrow> lb_s b | Some bf \<Rightarrow> bf)"

definition lb_content :: "lazybuf \<Rightarrow> string" where
  "lb_content b = take (nat (lb_w b)) (lb_bytes b)"

definition lb_inv :: "lazybuf \<Rightarrow> bool" where
  "lb_inv b \<longleftrightarrow> 0 \<le> lb_w b \<and> lb_w b \<le> int (length (lb_s b)) \<and> length (lb_bytes b) = length (lb_s b)"

text \<open>The write index right after the leading slash, if any.\<close>

definition base_w :: "bool \<Rightarrow> int" where
  "base_w rooted = (if rooted then 1 else 0)"

text \<open>
  The output of the loop is the rendering of a stack of segments: none is empty or holds
  a slash, and \<^verbatim>\<open>..\<close> stands only at the bottom, and not at all under a rooted path.
  \<open>dd_of\<close> is where the variable \<^verbatim>\<open>dotdot\<close> of \<^verbatim>\<open>Clean\<close> then points: behind the leading
  slash or the leading \<^verbatim>\<open>..\<close> segments.
\<close>

abbreviation dots :: "string \<Rightarrow> bool" where
  "dots seg \<equiv> seg = ''..''"

abbreviation not_slash :: "char \<Rightarrow> bool" where
  "not_slash x \<equiv> x \<noteq> CHR ''/''"

definition wf_stack :: "bool \<Rightarrow> string list \<Rightarrow> bool" where
  "wf_stack rooted st \<longleftrightarrow>
     (\<forall>seg\<in>set st. seg \<noteq> [] \<and> CHR ''/'' \<notin> set seg) \<and>
     ''..'' \<notin> set (dropWhile dots st) \<and> (rooted \<longrightarrow> ''..'' \<notin> set st)"

definition dd_of :: "bool \<Rightarrow> string list \<Rightarrow> nat" where
  "dd_of rooted st = length (render rooted (takeWhile dots st))"

section \<open>Sample inputs\<close>

text \<open>
  A stand-in for \<^verbatim>\<open>parser.ParseFile\<close> over three files: the file set is the list of
  the names read so far; \<^verbatim>\<open>a.go\<close> imports \<^verbatim>\<open>"fmt"\<close> and \<^verbatim>\<open>"./util"\<close>, \<^verbatim>\<open>b.go\<close> imports
  \<^verbatim>\<open>"fmt"\<close> and \<^verbatim>\<open>"os"\<close>, and the header of every other file has a syntax error.
\<close>

definition lit :: "string \<Rightarrow> ImportSpec" where
  "lit v = \<lparr>spec_Path = \<lparr>Kind = token_STRING, Value = v\<rparr>\<rparr>"

definition sample_ParseFile :: "string list \<Rightarrow> string \<Rightarrow> string list \<times> (error + File)" where
  "sample_ParseFile fset gopfile =
     (gopfile # fset,
      if gopfile = ''a.go'' then Inr \<lparr>Imports = [lit ''\"fmt\"'', lit ''\"./util\"'']\<rparr>
      else if gopfile = ''b.go'' then Inr \<lparr>Imports = [lit ''\"fmt\"'', lit ''\"os\"'']\<rparr>
      else Inl (Error (gopfile @ '':1:1: expected package, found EOF'')))"

text \<open>A stand-in for \<^verbatim>\<open>strconv.Unquote\<close> on double-quoted literals without escapes.\<close>

definition sample_Unquote :: "string \<Rightarrow> error + string" where
  "sample_Unquote v =
     (if 2 \<le> length v \<and> hd v = CHR 0x22 \<and> last v = CHR 0x22
         \<and> CHR 0x22 \<notin> set (butlast (tl v)) \<and> CHR 0x5C \<notin> set (butlast (tl v))
      then Inr (butlast (tl v)) else Inl (Error ''invalid syntax''))"

definition sample_parser :: "string list ImportsParser" where
  "sample_parser =
     \<lparr>p_fset = [], p_mod = \<lparr>mod_Path = ''example.com/app''\<rparr>, p_imports = [''fmt'' \<mapsto> ()]\<rparr>"

text \<open>The sample parser after \<^verbatim>\<open>a.go\<close>, and after both files.\<close>

definition sample_after_a :: "string list \<Rightarrow> string list ImportsParser" where
  "sample_after_a fset =
     \<lparr>p_fset = fset, p_mod = \<lparr>mod_Path = ''example.com/app''\<rparr>,
      p_imports = [''fmt'' \<mapsto> (), ''example.com/app/util'' \<mapsto> ()]\<rparr>"

definition sample_after_ab :: "string list \<Rightarrow> string list ImportsParser" where
  "sample_after_ab fset =
     \<lparr>p_fset = fset, p_mod = \<lparr>mod_Path = ''example.com/app''\<rparr>,
      p_imports = [''fmt'' \<mapsto> (), ''example.com/app/util'' \<mapsto> (), ''os'' \<mapsto> ()]\<rparr>"

section \<open>Auxiliary facts\<close>

lemma bind_Inr_iff: "bind m f = Inr y \<longleftrightarrow> (\<exists>x. m = Inr x \<and> f x = Inr y)"
  by (cases m) (simp_all add: bind_def)

lemma bind_Inl_iff: "bind m f = Inl e \<longleftrightarrow> m = Inl e \<or> (\<exists>x. m = Inr x \<and> f x = Inl e)"
  by (cases m) (simp_all add: bind_def)

lemma bind_Inr [simp]: "bind (Inr x) f = f x"
  by (simp add: bind_def)

lemma bind_Inl [simp]: "bind (Inl e) f = Inl e"
  by (simp add: bind_def)

lemma canonicalGo_mod: "p_mod p = p_mod q \<Longrightarrow> canonicalGo p s = canonicalGo q s"
  by (simp add: canonicalGo_def)

lemma pkgPath_of_mod: "p_mod p = p_mod q \<Longrightarrow> pkgPath_of U p spec = pkgPath_of U q spec"
  by (simp add: pkgPath_of_def canonicalGo_mod [of p q] cong: bind_cong)

lemma importGo_Inr_iff:
  "importGo U p spec = Inr p' \<longleftrightarrow>
     (\<exists>k. pkgPath_of U p spec = Inr k \<and> p' = p\<lparr>p_imports := (p_imports p)(k \<mapsto> ())\<rparr>)"
  by (auto simp: importGo_def pkgPath_of_def bind_Inr_iff)

lemma importGo_Inl_iff: "importGo U p spec = Inl e \<longleftrightarrow> pkgPath_of U p spec = Inl e"
  by (auto simp: importGo_def pkgPath_of_def bind_Inl_iff)

lemma unit_map_eqI: "dom m = dom m' \<Longrightarrow> m = (m' :: 'a \<rightharpoonup> unit)"
proof
  fix x assume "dom m = dom m'"
  then have "x \<in> dom m \<longleftrightarrow> x \<in> dom m'" by simp
  then show "m x = m' x" by (cases "m x"; cases "m' x") auto
qed

lemma importGo_loop_state:
  "p_mod (snd (importGo_loop U p imps)) = p_mod p \<and>
   p_fset (snd (importGo_loop U p imps)) = p_fset p \<and>
   p_imports p \<subseteq>\<^sub>m p_imports (snd (importGo_loop U p imps))"
proof (induction imps arbitrary: p)
  case Nil
  show ?case by simp
next
  case (Cons imp imps)
  show ?case
  proof (cases "importGo U p imp")
    case (Inl e)
    then show ?thesis by simp
  next
    case (Inr p')
    then obtain k where p': "p' = p\<lparr>p_imports := (p_imports p)(k \<mapsto> ())\<rparr>"
      by (auto simp: importGo_Inr_iff)
    have step: "p_imports p \<subseteq>\<^sub>m p_imports p'" "p_mod p' = p_mod p" "p_fset p' = p_fset p"
      by (auto simp: p' map_le_def)
    have loop: "importGo_loop U p (imp # imps) = importGo_loop U p' imps"
      using Inr by simp
    from Cons.IH [of p'] step show ?thesis
      unfolding loop by (auto intro: map_le_trans)
  qed
qed

lemma importGo_loop_Inr:
  assumes "importGo_loop U p imps = (Inr u, p')"
  shows "dom (p_imports p') = dom (p_imports p) \<union> {k. \<exists>spec\<in>set imps. pkgPath_of U p spec = Inr k}
    \<and> (\<forall>spec\<in>set imps. \<exists>k. pkgPath_of U p spec = Inr k)"
  using assms
proof (induction imps arbitrary: p)
  case Nil
  then show ?case by simp
next
  case (Cons imp imps)
  from Cons.prems obtain q where q: "importGo U p imp = Inr q"
    and rest: "importGo_loop U q imps = (Inr u, p')"
    by (cases "importGo U p imp") auto
  from q obtain k where k: "pkgPath_of U p imp = Inr k"
    and q': "q = p\<lparr>p_imports := (p_imports p)(k \<mapsto> ())\<rparr>"
    by (auto simp: importGo_Inr_iff)
  have m: "p_mod q = p_mod p" by (simp add: q')
  note eq = pkgPath_of_mod [OF m, of U]
  have d: "dom (p_imports q) = insert k (dom (p_imports p))" by (simp add: q')
  from Cons.IH [OF rest] show ?case
    unfolding eq d using k by auto
qed

lemma importGo_loop_present:
  assumes "\<forall>spec\<in>set imps. \<exists>k. pkgPath_of U p spec = Inr k \<and> k \<in> dom (p_imports p)"
  shows "importGo_loop U p imps = (Inr (), p)"
  using assms
proof (induction imps)
  case Nil
  show ?case by simp
next
  case (Cons imp imps)
  then obtain k where k: "pkgPath_of U p imp = Inr k" "k \<in> dom (p_imports p)" by auto
  then have "(p_imports p)(k \<mapsto> ()) = p_imports p" by (auto intro: unit_map_eqI)
  with k have "importGo U p imp = Inr p" by (simp add: importGo_Inr_iff)
  with Cons show ?case by simp
qed


lemma ParseGoImport_state:
  "p_mod (snd (ParseGoImport P U p F)) = p_mod p \<and>
   p_imports p \<subseteq>\<^sub>m p_imports (snd (ParseGoImport P U p F))"
proof (cases "P (p_fset p) F")
  case (Pair fs' res)
  show ?thesis
  proof (cases res)
    case (Inl err)
    with Pair show ?thesis by (simp add: ParseGoImport_def)
  next
    case (Inr f)
    have "snd (ParseGoImport P U p F) = snd (importGo_loop U (p\<lparr>p_fset := fs'\<rparr>) (Imports f))"
      using Pair Inr by (simp add: ParseGoImport_def split: prod.splits sum.splits)
    with importGo_loop_state [of U "p\<lparr>p_fset := fs'\<rparr>" "Imports f"] show ?thesis by simp
  qed
qed

lemma ParseGoImport_nil_iff:
  "ParseGoImport P U p F = (Inr None, p') \<longleftrightarrow>
     (\<exists>f. snd (P (p_fset p) F) = Inr f \<and>
        importGo_loop U (p\<lparr>p_fset := fst (P (p_fset p) F)\<rparr>) (Imports f) = (Inr (), p'))"
  by (cases "P (p_fset p) F") (auto simp: ParseGoImport_def split: prod.splits sum.splits)

lemma ParseGoImport_error_iff:
  "ParseGoImport P U p F = (Inr (Some err), p') \<longleftrightarrow>
     snd (P (p_fset p) F) = Inl err \<and> p' = p\<lparr>p_fset := fst (P (p_fset p) F)\<rparr>"
  by (cases "P (p_fset p) F") (auto simp: ParseGoImport_def split: prod.splits sum.splits)

lemma call_imports_mod:
  "header_of_file_only P \<Longrightarrow> p_mod p = p_mod q \<Longrightarrow> call_imports P U p F = call_imports P U q F"
proof -
  assume h: "header_of_file_only P" and m: "p_mod p = p_mod q"
  from h have "snd (P (p_fset p) F) = snd (P (p_fset q) F)"
    unfolding header_of_file_only_def by blast
  then show ?thesis
    by (simp add: call_imports_def pkgPath_of_mod [OF m] split: sum.splits)
qed

lemma ParseGoImport_returns_dom:
  assumes "ParseGoImport P U p F = (Inr err, p')"
  shows "dom (p_imports p') = dom (p_imports p) \<union> call_imports P U p F"
proof (cases err)
  case None
  with assms obtain f where f: "snd (P (p_fset p) F) = Inr f"
    and loop: "importGo_loop U (p\<lparr>p_fset := fst (P (p_fset p) F)\<rparr>) (Imports f) = (Inr (), p')"
    by (auto simp: ParseGoImport_nil_iff)
  have "pkgPath_of U (p\<lparr>p_fset := fst (P (p_fset p) F)\<rparr>) = pkgPath_of U p"
    by (rule ext) (simp add: pkgPath_of_mod [of "p\<lparr>p_fset := fst (P (p_fset p) F)\<rparr>" p])
  with importGo_loop_Inr [OF loop] f show ?thesis
    by (simp add: call_imports_def)
next
  case (Some e)
  with assms show ?thesis
    by (auto simp: ParseGoImport_error_iff call_imports_def)
qed

lemma ParseGoImports_dom:
  assumes "header_of_file_only P" "ParseGoImports P U p files = (Inr errs, p')"
  shows "p_mod p' = p_mod p \<and>
    dom (p_imports p') = dom (p_imports p) \<union> (\<Union>F\<in>set files. call_imports P U p F)"
  using assms(2)
proof (induction files arbitrary: p errs)
  case Nil
  then show ?case by simp
next
  case (Cons F files)
  from Cons.prems obtain err q errs' where
    one: "ParseGoImport P U p F = (Inr err, q)" and
    rest: "ParseGoImports P U q files = (Inr errs', p')"
    by (auto split: prod.splits sum.splits)
  have m: "p_mod q = p_mod p"
    using ParseGoImport_state [of P U p F] one by simp
  have "\<And>G. call_imports P U q G = call_imports P U p G"
    by (rule call_imports_mod [OF assms(1) m])
  with Cons.IH [OF rest] ParseGoImport_returns_dom [OF one] m show ?case
    by auto
qed


lemma sample_header_of_file_only: "header_of_file_only sample_ParseFile"
  by (simp add: header_of_file_only_def sample_ParseFile_def)

lemma sample_canonicalGo_fmt: "canonicalGo sample_parser ''fmt'' = Inr ''fmt''"
  by (simp add: canonicalGo_def strings_HasPrefix_def)

lemma sample_canonicalGo_os: "canonicalGo sample_parser ''os'' = Inr ''os''"
  by (simp add: canonicalGo_def strings_HasPrefix_def)

lemma sample_canonicalGo_util: "canonicalGo sample_parser ''./util'' = Inr ''example.com/app/util''"
  by code_simp

lemma sample_call_a_gen:
  assumes "p_mod q = \<lparr>mod_Path = ''example.com/app''\<rparr>"
  shows "ParseGoImport sample_ParseFile sample_Unquote q ''a.go''
    = (Inr None, q\<lparr>p_fset := ''a.go'' # p_fset q,
         p_imports := (p_imports q)(''fmt'' \<mapsto> (), ''example.com/app/util'' \<mapsto> ())\<rparr>)"
proof -
  have m: "p_mod r = p_mod sample_parser" if "p_mod r = p_mod q" for r :: "string list ImportsParser"
    using that assms by (simp add: sample_parser_def)
  have 1: "canonicalGo r ''fmt'' = Inr ''fmt''" if "p_mod r = p_mod q" for r :: "string list ImportsParser"
    using canonicalGo_mod [OF m [OF that]] sample_canonicalGo_fmt by simp
  have 2: "canonicalGo r ''./util'' = Inr ''example.com/app/util''" if "p_mod r = p_mod q"
    for r :: "string list ImportsParser"
    using canonicalGo_mod [OF m [OF that]] sample_canonicalGo_util by simp
  show ?thesis
    by (simp add: ParseGoImport_def sample_ParseFile_def lit_def importGo_def goToString_def
        sample_Unquote_def 1 2)
qed

lemma sample_call_b_gen:
  assumes "p_mod q = \<lparr>mod_Path = ''example.com/app''\<rparr>"
  shows "ParseGoImport sample_ParseFile sample_Unquote q ''b.go''
    = (Inr None, q\<lparr>p_fset := ''b.go'' # p_fset q,
         p_imports := (p_imports q)(''fmt'' \<mapsto> (), ''os'' \<mapsto> ())\<rparr>)"
proof -
  have m: "p_mod r = p_mod sample_parser" if "p_mod r = p_mod q" for r :: "string list ImportsParser"
    using that assms by (simp add: sample_parser_def)
  have 1: "canonicalGo r ''fmt'' = Inr ''fmt''" if "p_mod r = p_mod q" for r :: "string list ImportsParser"
    using canonicalGo_mod [OF m [OF that]] sample_canonicalGo_fmt by simp
  have 2: "canonicalGo r ''os'' = Inr ''os''" if "p_mod r = p_mod q"
    for r :: "string list ImportsParser"
    using canonicalGo_mod [OF m [OF that]] sample_canonicalGo_os by simp
  show ?thesis
    by (simp add: ParseGoImport_def sample_ParseFile_def lit_def importGo_def goToString_def
        sample_Unquote_def 1 2)
qed

subsection \<open>Segments and the stack\<close>

lemma cons_first_nonempty [simp]: "cons_first c segs \<noteq> []"
  by (cases segs) auto

lemma split_slash_nonempty [simp]: "split_slash s \<noteq> []"
  by (induction s) auto

lemma split_slash_no_slash: "seg \<in> set (split_slash s) \<Longrightarrow> CHR ''/'' \<notin> set seg"
proof (induction s arbitrary: seg)
  case Nil
  then show ?case by simp
next
  case (Cons c cs)
  show ?case
  proof (cases "c = CHR ''/''")
    case True
    with Cons show ?thesis by auto
  next
    case False
    obtain x xs where x: "split_slash cs = x # xs"
      by (cases "split_slash cs") auto
    with Cons False show ?thesis by auto
  qed
qed

lemma join_slash_Cons: "segs \<noteq> [] \<Longrightarrow> join_slash (seg # segs) = seg @ CHR ''/'' # join_slash segs"
  by (cases segs) auto

lemma join_split_slash [simp]: "join_slash (split_slash s) = s"
proof (induction s)
  case Nil
  show ?case by simp
next
  case (Cons c cs)
  obtain x xs where x: "split_slash cs = x # xs"
    by (cases "split_slash cs") auto
  with Cons show ?case
    by (cases xs) (auto simp: join_slash_Cons)
qed

lemma split_slash_append: "split_slash (a @ CHR ''/'' # b) = split_slash a @ split_slash b"
proof (induction a)
  case Nil
  show ?case by simp
next
  case (Cons c cs)
  obtain x xs where x: "split_slash cs = x # xs"
    by (cases "split_slash cs") auto
  with Cons show ?case by auto
qed

lemma join_slash_snoc: "st \<noteq> [] \<Longrightarrow> join_slash (st @ [seg]) = join_slash st @ CHR ''/'' # seg"
proof (induction st)
  case Nil
  then show ?case by simp
next
  case (Cons a st)
  then show ?case by (cases st) (auto simp: join_slash_Cons)
qed

lemma join_slash_append:
  "a \<noteq> [] \<Longrightarrow> b \<noteq> [] \<Longrightarrow> join_slash (a @ b) = join_slash a @ CHR ''/'' # join_slash b"
proof (induction a)
  case Nil
  then show ?case by simp
next
  case (Cons x a)
  then show ?case by (cases a) (auto simp: join_slash_Cons)
qed

lemma join_slash_eq_Nil: "\<forall>seg\<in>set st. seg \<noteq> [] \<Longrightarrow> join_slash st = [] \<longleftrightarrow> st = []"
  by (cases st rule: join_slash.cases) auto

lemma wf_stack_Nil [simp]: "wf_stack rooted []"
  by (simp add: wf_stack_def)

lemma render_Nil [simp]: "render rooted [] = (if rooted then ''/'' else [])"
  by (simp add: render_def)

lemma dd_of_Nil [simp]: "dd_of rooted [] = (if rooted then 1 else 0)"
  by (simp add: dd_of_def)

lemma render_snoc:
  "render rooted (st @ [seg]) = (if st = [] then render rooted [] @ seg else render rooted st @ CHR ''/'' # seg)"
  by (simp add: render_def join_slash_snoc)

lemma drop_elem_slash:
  "CHR ''/'' \<notin> set seg \<Longrightarrow> seg \<noteq> [] \<Longrightarrow> dd \<le> length P \<Longrightarrow> drop_elem dd (P @ CHR ''/'' # seg) = P"
proof (induction seg rule: rev_induct)
  case Nil
  then show ?case by simp
next
  case (snoc c seg)
  show ?case
  proof (cases "seg = []")
    case True
    with snoc.prems show ?thesis
      by (simp add: drop_elem.simps [of dd "P @ [CHR ''/'', c]"] drop_elem.simps [of dd "P @ [CHR ''/'']"] butlast_append)
  next
    case False
    have "drop_elem dd (P @ CHR ''/'' # seg @ [c]) = drop_elem dd (P @ CHR ''/'' # seg)"
    proof -
      from snoc.prems have "c \<noteq> CHR ''/''" by auto
      with snoc.prems False show ?thesis
        by (subst drop_elem.simps) (simp add: butlast_append)
    qed
    with snoc False show ?thesis by simp
  qed
qed

lemma drop_elem_base:
  "seg \<noteq> [] \<Longrightarrow> CHR ''/'' \<notin> set seg \<Longrightarrow> length P = dd \<Longrightarrow> drop_elem dd (P @ seg) = P"
proof (induction seg rule: rev_induct)
  case Nil
  then show ?case by simp
next
  case (snoc c seg)
  show ?case
  proof (cases "seg = []")
    case True
    with snoc.prems show ?thesis
      by (simp add: drop_elem.simps [of dd "P @ [c]"])
  next
    case False
    have "drop_elem dd (P @ seg @ [c]) = drop_elem dd (P @ seg)"
    proof -
      from snoc.prems have "c \<noteq> CHR ''/''" by auto
      with snoc.prems False show ?thesis
        by (subst drop_elem.simps) (simp add: butlast_append)
    qed
    with snoc False show ?thesis by simp
  qed
qed


lemma length_join_slash_prefix: "length (join_slash a) \<le> length (join_slash (a @ b))"
proof (cases "a = [] \<or> b = []")
  case True
  then show ?thesis by auto
next
  case False
  then show ?thesis by (simp add: join_slash_append)
qed

lemma takeWhile_dots_snoc: "seg \<noteq> ''..'' \<Longrightarrow> takeWhile dots (st @ [seg]) = takeWhile dots st"
  by (induction st) auto

lemma dd_of_snoc: "seg \<noteq> ''..'' \<Longrightarrow> dd_of rooted (st @ [seg]) = dd_of rooted st"
  by (simp add: dd_of_def takeWhile_dots_snoc)

lemma dd_of_le: "dd_of rooted st \<le> length (render rooted st)"
proof -
  have "length (join_slash (takeWhile dots st)) \<le> length (join_slash (takeWhile dots st @ dropWhile dots st))"
    by (rule length_join_slash_prefix)
  then show ?thesis by (simp add: dd_of_def render_def)
qed

lemma wf_stack_all_dots:
  assumes "wf_stack rooted st" "\<not> (st \<noteq> [] \<and> last st \<noteq> ''..'')"
  shows "takeWhile dots st = st"
proof (cases "dropWhile dots st = []")
  case True
  then show ?thesis by (metis append_Nil2 takeWhile_dropWhile_id)
next
  case False
  then have "last (dropWhile dots st) = last st"
    by (metis last_appendR takeWhile_dropWhile_id)
  moreover from False have "st \<noteq> []" by auto
  ultimately have "''..'' \<in> set (dropWhile dots st)"
    using assms(2) False by (metis last_in_set)
  with assms(1) show ?thesis by (simp add: wf_stack_def)
qed

lemma can_pop_iff:
  assumes "wf_stack rooted st"
  shows "dd_of rooted st < length (render rooted st) \<longleftrightarrow> st \<noteq> [] \<and> last st \<noteq> ''..''"
proof (cases "st \<noteq> [] \<and> last st \<noteq> ''..''")
  case True
  then obtain st' seg where st: "st = st' @ [seg]" and seg: "seg \<noteq> ''..''"
    by (metis append_butlast_last_id)
  from assms have "seg \<noteq> []" by (simp add: wf_stack_def st)
  then have "length (render rooted st') < length (render rooted st)"
    by (simp add: st render_snoc)
  with dd_of_le [of rooted st'] True show ?thesis
    by (simp add: st dd_of_snoc [OF seg])
next
  case False
  have "dd_of rooted st = length (render rooted st)"
    by (simp only: dd_of_def wf_stack_all_dots [OF assms False])
  with False show ?thesis by auto
qed

lemma wf_stack_butlast: "wf_stack rooted st \<Longrightarrow> wf_stack rooted (butlast st)"
proof -
  assume wf: "wf_stack rooted st"
  have sub: "set (butlast st) \<subseteq> set st" by (auto dest: in_set_butlastD)
  have "set (dropWhile dots (butlast st)) \<subseteq> set (dropWhile dots st)"
  proof (cases "st = []")
    case True
    then show ?thesis by simp
  next
    case False
    then have "st = butlast st @ [last st]" by simp
    then have "dropWhile dots st = dropWhile dots (butlast st @ [last st])" by simp
    also have "set \<dots> \<supseteq> set (dropWhile dots (butlast st))"
    proof (cases "\<forall>x\<in>set (butlast st). dots x")
      case True
      then have "dropWhile dots (butlast st) = []" by simp
      then show ?thesis by (simp only: list.set empty_subsetI)
    next
      case False
      then show ?thesis by (auto simp: dropWhile_append)
    qed
    finally show ?thesis .
  qed
  with wf sub show ?thesis
    unfolding wf_stack_def by blast
qed

lemma pop_stack:
  assumes "wf_stack rooted st" "st \<noteq> []" "last st \<noteq> ''..''"
  shows "drop_elem (dd_of rooted st) (render rooted st) = render rooted (butlast st)"
    and "dd_of rooted (butlast st) = dd_of rooted st"
proof -
  obtain st' seg where st: "st = st' @ [seg]" and seg: "seg \<noteq> ''..''"
    using assms(2,3) by (metis append_butlast_last_id)
  from assms(1) have s: "seg \<noteq> []" "CHR ''/'' \<notin> set seg"
    by (simp_all add: wf_stack_def st)
  show "dd_of rooted (butlast st) = dd_of rooted st"
    by (simp add: st dd_of_snoc [OF seg])
  show "drop_elem (dd_of rooted st) (render rooted st) = render rooted (butlast st)"
  proof (cases "st' = []")
    case True
    have 1: "drop_elem (length (render rooted [])) (render rooted [] @ seg) = render rooted []"
      by (rule drop_elem_base [OF s refl])
    have 2: "render rooted st = render rooted [] @ seg"
      by (simp add: st True render_def)
    have 3: "dd_of rooted st = length (render rooted [])"
      using seg by (simp add: st True dd_of_def)
    have 4: "butlast st = []" by (simp add: st True)
    show ?thesis by (simp only: 1 2 3 4)
  next
    case False
    have "drop_elem (dd_of rooted st') (render rooted st' @ CHR ''/'' # seg) = render rooted st'"
      by (rule drop_elem_slash [OF s(2) s(1) dd_of_le])
    with False show ?thesis
      by (simp add: st render_snoc dd_of_snoc [OF seg])
  qed
qed

lemma wf_stack_snoc:
  assumes "wf_stack rooted st" "seg \<noteq> []" "CHR ''/'' \<notin> set seg" "seg \<noteq> ''..''"
  shows "wf_stack rooted (st @ [seg])"
  using assms by (auto simp: wf_stack_def dropWhile_append)

lemma push_dots:
  assumes "wf_stack False st" "\<not> (st \<noteq> [] \<and> last st \<noteq> ''..'')"
  shows "wf_stack False (st @ [''..''])"
    and "render False (st @ [''..''])
      = (if render False st \<noteq> [] then render False st @ ''/'' else render False st) @ ''..''"
    and "dd_of False (st @ [''..'']) = length (render False (st @ [''..'']))"
proof -
  note all = wf_stack_all_dots [OF assms]
  then have d: "\<forall>seg\<in>set st. dots seg"
    by (metis set_takeWhileD)
  then have dw: "dropWhile dots (st @ [''..'']) = []" by simp
  from assms(1) show "wf_stack False (st @ [''..''])"
    unfolding wf_stack_def dw by auto
  have "takeWhile dots (st @ [''..'']) = st @ [''..'']"
    using d by simp
  then show "dd_of False (st @ [''..'']) = length (render False (st @ [''..'']))"
    by (simp add: dd_of_def)
  have "join_slash st = [] \<longleftrightarrow> st = []"
    using assms(1) by (intro join_slash_eq_Nil) (simp add: wf_stack_def)
  then show "render False (st @ [''..''])
      = (if render False st \<noteq> [] then render False st @ ''/'' else render False st) @ ''..''"
    by (simp add: render_def join_slash_snoc)
qed

lemma push_seg:
  assumes "wf_stack rooted st"
  shows "render rooted (st @ [seg])
      = (if rooted \<and> length (render rooted st) \<noteq> 1 \<or> \<not> rooted \<and> length (render rooted st) \<noteq> 0
         then render rooted st @ ''/'' else render rooted st) @ seg"
proof -
  have "join_slash st = [] \<longleftrightarrow> st = []"
    using assms by (intro join_slash_eq_Nil) (simp add: wf_stack_def)
  then show ?thesis
    by (auto simp: render_def join_slash_snoc)
qed


lemma wf_stack_resolve_step:
  assumes "wf_stack rooted st" "CHR ''/'' \<notin> set seg"
  shows "wf_stack rooted (resolve_step rooted st seg)"
proof -
  consider (skip) "seg = [] \<or> seg = ''.''"
    | (pop) "seg = ''..''" "st \<noteq> [] \<and> last st \<noteq> ''..''"
    | (top) "seg = ''..''" "\<not> (st \<noteq> [] \<and> last st \<noteq> ''..'')" "rooted"
    | (up) "seg = ''..''" "\<not> (st \<noteq> [] \<and> last st \<noteq> ''..'')" "\<not> rooted"
    | (push) "seg \<noteq> []" "seg \<noteq> ''.''" "seg \<noteq> ''..''"
    by blast
  then show ?thesis
  proof cases
    case skip
    with assms show ?thesis by (auto simp: resolve_step_def)
  next
    case pop
    with wf_stack_butlast [OF assms(1)] show ?thesis by (simp add: resolve_step_def)
  next
    case top
    with assms show ?thesis by (auto simp: resolve_step_def)
  next
    case up
    with push_dots(1) [of st] assms show ?thesis by (auto simp: resolve_step_def)
  next
    case push
    with wf_stack_snoc [OF assms(1) push(1) assms(2) push(3)] show ?thesis
      by (simp add: resolve_step_def)
  qed
qed

lemma takeWhile_seg:
  assumes "CHR ''/'' \<notin> set seg" "t = [] \<or> hd t = CHR ''/''"
  shows "takeWhile (\<lambda>x. x \<noteq> CHR ''/'') (seg @ t) = seg"
    and "dropWhile (\<lambda>x. x \<noteq> CHR ''/'') (seg @ t) = t"
proof -
  have t: "takeWhile (\<lambda>x. x \<noteq> CHR ''/'') t = []" "dropWhile (\<lambda>x. x \<noteq> CHR ''/'') t = t"
    using assms(2) by (cases t; simp)+
  have s: "\<And>x. x \<in> set seg \<Longrightarrow> x \<noteq> CHR ''/''"
    using assms(1) by auto
  show "takeWhile (\<lambda>x. x \<noteq> CHR ''/'') (seg @ t) = seg"
    by (simp add: takeWhile_append2 [OF s] t)
  show "dropWhile (\<lambda>x. x \<noteq> CHR ''/'') (seg @ t) = t"
    by (simp add: dropWhile_append2 [OF s] t)
qed

lemma clean_abs_default:
  assumes "c \<noteq> CHR ''/''"
    and "\<not> (c = CHR ''.'' \<and> (cs = [] \<or> hd cs = CHR ''/''))"
    and "\<not> (c = CHR ''.'' \<and> hd cs = CHR ''.'' \<and> (tl cs = [] \<or> hd (tl cs) = CHR ''/''))"
  shows "clean_abs rooted out dd (c # cs)
    = clean_abs rooted
          ((if rooted \<and> length out \<noteq> 1 \<or> \<not> rooted \<and> length out \<noteq> 0 then out @ ''/'' else out)
             @ takeWhile (\<lambda>x. x \<noteq> CHR ''/'') (c # cs))
          dd (dropWhile (\<lambda>x. x \<noteq> CHR ''/'') (c # cs))"
  using assms by (simp only: clean_abs.simps if_False)

lemma clean_abs_step:
  assumes wf: "wf_stack rooted st" and seg: "CHR ''/'' \<notin> set seg"
    and t: "t = [] \<or> hd t = CHR ''/''"
  shows "clean_abs rooted (render rooted st) (dd_of rooted st) (seg @ t)
    = clean_abs rooted (render rooted (resolve_step rooted st seg))
        (dd_of rooted (resolve_step rooted st seg)) t"
proof -
  consider (empty) "seg = []" | (dot) "seg = ''.''" | (dotdot) "seg = ''..''"
    | (name) "seg \<noteq> []" "seg \<noteq> ''.''" "seg \<noteq> ''..''"
    by blast
  then show ?thesis
  proof cases
    case empty
    then show ?thesis by (simp add: resolve_step_def)
  next
    case dot
    with t show ?thesis by (auto simp: resolve_step_def)
  next
    case dotdot
    note pop = can_pop_iff [OF wf]
    show ?thesis
    proof (cases "st \<noteq> [] \<and> last st \<noteq> ''..''")
      case True
      with pop_stack [OF wf] pop dotdot t show ?thesis
        by (auto simp: resolve_step_def)
    next
      case False
      show ?thesis
      proof (cases rooted)
        case True
        with False pop dotdot t show ?thesis
          by (auto simp: resolve_step_def)
      next
        case nr: False
        from wf nr have wf': "wf_stack False st" by simp
        from push_dots [OF wf' False] False pop dotdot t nr show ?thesis
          by (auto simp: resolve_step_def)
      qed
    qed
  next
    case name
    then obtain c seg' where c: "seg = c # seg'" by (cases seg) auto
    from seg c have c1: "c \<noteq> CHR ''/''" by auto
    have c2: "\<not> (c = CHR ''.'' \<and> (seg' @ t = [] \<or> hd (seg' @ t) = CHR ''/''))"
      using name(2) seg c by (cases seg') auto
    have c3: "\<not> (c = CHR ''.'' \<and> hd (seg' @ t) = CHR ''.''
        \<and> (tl (seg' @ t) = [] \<or> hd (tl (seg' @ t)) = CHR ''/''))"
    proof (cases seg')
      case Nil
      with t name(2) c show ?thesis by (cases t) auto
    next
      case (Cons d seg'')
      with name(3) seg c show ?thesis by (cases seg'') auto
    qed
    have "clean_abs rooted (render rooted st) (dd_of rooted st) (seg @ t)
      = clean_abs rooted
          ((if rooted \<and> length (render rooted st) \<noteq> 1 \<or> \<not> rooted \<and> length (render rooted st) \<noteq> 0
            then render rooted st @ ''/'' else render rooted st) @ seg) (dd_of rooted st) t"
      using takeWhile_seg [OF seg t]
      by (simp only: c append_Cons clean_abs_default [OF c1 c2 c3])
    also have "\<dots> = clean_abs rooted (render rooted (st @ [seg])) (dd_of rooted (st @ [seg])) t"
      by (simp only: push_seg [OF wf] dd_of_snoc [OF name(3)])
    finally show ?thesis using name by (simp add: resolve_step_def)
  qed
qed

lemma clean_abs_segs:
  assumes "wf_stack rooted st" "\<forall>seg\<in>set segs. CHR ''/'' \<notin> set seg" "segs \<noteq> []"
  shows "clean_abs rooted (render rooted st) (dd_of rooted st) (join_slash segs)
    = render rooted (foldl (resolve_step rooted) st segs)"
  using assms
proof (induction segs arbitrary: st)
  case Nil
  then show ?case by simp
next
  case (Cons seg segs)
  from Cons.prems have seg: "CHR ''/'' \<notin> set seg" by simp
  note wf' = wf_stack_resolve_step [OF Cons.prems(1) seg]
  show ?case
  proof (cases "segs = []")
    case True
    have "clean_abs rooted (render rooted st) (dd_of rooted st) (seg @ [])
      = clean_abs rooted (render rooted (resolve_step rooted st seg))
          (dd_of rooted (resolve_step rooted st seg)) []"
      by (rule clean_abs_step [OF Cons.prems(1) seg]) simp
    with True show ?thesis by simp
  next
    case False
    have "clean_abs rooted (render rooted st) (dd_of rooted st) (seg @ CHR ''/'' # join_slash segs)
      = clean_abs rooted (render rooted (resolve_step rooted st seg))
          (dd_of rooted (resolve_step rooted st seg)) (CHR ''/'' # join_slash segs)"
      by (rule clean_abs_step [OF Cons.prems(1) seg]) simp
    also have "\<dots> = clean_abs rooted (render rooted (resolve_step rooted st seg))
          (dd_of rooted (resolve_step rooted st seg)) (join_slash segs)"
      by simp
    also have "\<dots> = render rooted (foldl (resolve_step rooted) (resolve_step rooted st seg) segs)"
      using Cons.prems False by (intro Cons.IH [OF wf']) auto
    finally show ?thesis using False by (simp add: join_slash_Cons)
  qed
qed

declare clean_abs.simps(2) [simp del]

subsection \<open>The code against the loop on lists\<close>

lemma str_index_nat: "k < length s \<Longrightarrow> str_index s (int k) = Inr (s ! k)"
  by (simp add: str_index_def)

lemma str_index_ok: "0 \<le> i \<Longrightarrow> i < int (length s) \<Longrightarrow> str_index s i = Inr (s ! nat i)"
  by (simp add: str_index_def)

lemma length_lb_content: "lb_inv b \<Longrightarrow> length (lb_content b) = nat (lb_w b)"
  by (auto simp: lb_inv_def lb_content_def)

lemma lb_index_ok:
  "lb_inv b \<Longrightarrow> 0 \<le> i \<Longrightarrow> i < int (length (lb_s b)) \<Longrightarrow> lb_index b i = Inr (lb_bytes b ! nat i)"
  by (auto simp: lb_inv_def lb_index_def lb_bytes_def str_index_def split: option.splits)

lemma lb_store_ok:
  assumes "0 \<le> lb_w b" "lb_w b < int (length bf)"
  shows "lb_store bf b c = Inr (b\<lparr>lb_buf := Some (bf[nat (lb_w b) := c]), lb_w := lb_w b + 1\<rparr>)"
  using assms by (simp add: lb_store_def)

lemma take_Suc_update: "k < length xs \<Longrightarrow> take (Suc k) (xs[k := c]) = take k xs @ [c]"
  by (simp add: take_Suc_conv_app_nth)

lemma lb_append_ok:
  assumes "lb_inv b" "lb_w b < int (length (lb_s b))"
  shows "\<exists>b'. lb_append b c = Inr b' \<and> lb_inv b' \<and> lb_s b' = lb_s b
    \<and> lb_w b' = lb_w b + 1 \<and> lb_content b' = lb_content b @ [c]"
proof -
  from assms have w: "0 \<le> lb_w b" "nat (lb_w b) < length (lb_s b)"
    and len: "length (lb_bytes b) = length (lb_s b)"
    by (auto simp: lb_inv_def)
  have suc: "nat (lb_w b + 1) = Suc (nat (lb_w b))" using w by simp
  show ?thesis
  proof (cases "lb_buf b")
    case (Some bf)
    with len have l: "length bf = length (lb_s b)" by (simp add: lb_bytes_def)
    have "lb_append b c = Inr (b\<lparr>lb_buf := Some (bf[nat (lb_w b) := c]), lb_w := lb_w b + 1\<rparr>)"
      using Some w l assms(2) by (simp add: lb_append_def lb_store_def)
    moreover have "take (Suc (nat (lb_w b))) (bf[nat (lb_w b) := c]) = take (nat (lb_w b)) bf @ [c]"
      using w l by (simp add: take_Suc_update)
    ultimately show ?thesis
      using Some w l assms(2)
      by (simp add: lb_inv_def lb_content_def lb_bytes_def suc)
  next
    case None
    show ?thesis
    proof (cases "lb_s b ! nat (lb_w b) = c")
      case True
      have "lb_append b c = Inr (b\<lparr>lb_w := lb_w b + 1\<rparr>)"
        using None True w assms(2) by (simp add: lb_append_def str_index_def)
      moreover have "take (Suc (nat (lb_w b))) (lb_s b) = take (nat (lb_w b)) (lb_s b) @ [c]"
        using w True by (simp add: take_Suc_conv_app_nth)
      ultimately show ?thesis
        using None w assms(2)
        by (simp add: lb_inv_def lb_content_def lb_bytes_def suc)
    next
      case False
      let ?bf = "copy_bytes (replicate (length (lb_s b)) (CHR 0x00)) (take (nat (lb_w b)) (lb_s b))"
      have l: "length ?bf = length (lb_s b)"
        using w by (simp add: copy_bytes_def)
      have tk: "take (nat (lb_w b)) ?bf = take (nat (lb_w b)) (lb_s b)"
        using w by (simp add: copy_bytes_def)
      have "lb_append b c = Inr (b\<lparr>lb_buf := Some (?bf[nat (lb_w b) := c]), lb_w := lb_w b + 1\<rparr>)"
        using None False w assms(2) l
        by (simp add: lb_append_def str_index_def str_slice_to_def lb_store_def)
      moreover have "take (Suc (nat (lb_w b))) (?bf[nat (lb_w b) := c]) = take (nat (lb_w b)) (lb_s b) @ [c]"
        using w l by (simp add: take_Suc_update tk)
      ultimately show ?thesis
        using None w assms(2) l
        by (simp add: lb_inv_def lb_content_def lb_bytes_def suc)
    qed
  qed
qed

lemma lb_string_ok: "lb_inv b \<Longrightarrow> lb_string b = Inr (lb_content b)"
  by (auto simp: lb_inv_def lb_string_def lb_content_def lb_bytes_def str_slice_to_def split: option.splits)


lemma lb_bytes_w_update [simp]: "lb_bytes (b\<lparr>lb_w := w\<rparr>) = lb_bytes b"
  by (simp add: lb_bytes_def split: option.splits)

lemma drop_elem_take_Suc:
  assumes "k < length xs"
  shows "drop_elem dd (take (Suc k) xs)
    = (if dd < k \<and> xs ! k \<noteq> CHR ''/'' then drop_elem dd (take k xs) else take k xs)"
proof -
  have "last (take (Suc k) xs) = xs ! k" "butlast (take (Suc k) xs) = take k xs"
    "length (take (Suc k) xs) - 1 = k"
    using assms by (simp_all add: take_Suc_conv_app_nth)
  then show ?thesis
    by (subst drop_elem.simps) simp
qed

lemma backtrack_ok:
  assumes "lb_inv b" "0 \<le> dd" "dd \<le> lb_w b" "lb_w b < int (length (lb_s b))"
  shows "\<exists>w'. backtrack dd b = Inr (b\<lparr>lb_w := w'\<rparr>) \<and> dd \<le> w' \<and> w' \<le> lb_w b
    \<and> take (nat w') (lb_bytes b) = drop_elem (nat dd) (take (Suc (nat (lb_w b))) (lb_bytes b))"
  using assms
proof (induction dd b rule: backtrack.induct)
  case (1 dd b)
  from "1.prems" have k: "nat (lb_w b) < length (lb_bytes b)" and w0: "0 \<le> lb_w b"
    by (auto simp: lb_inv_def)
  have idx: "lb_index b (lb_w b) = Inr (lb_bytes b ! nat (lb_w b))"
    using "1.prems" w0 by (intro lb_index_ok) auto
  note de = drop_elem_take_Suc [OF k, of "nat dd"]
  show ?case
  proof (cases "dd < lb_w b \<and> lb_bytes b ! nat (lb_w b) \<noteq> CHR ''/''")
    case True
    let ?b = "b\<lparr>lb_w := lb_w b - 1\<rparr>"
    have inv: "lb_inv ?b" using "1.prems" True by (auto simp: lb_inv_def)
    from "1.IH" [OF _ idx _ inv] True "1.prems"
    obtain w' where w': "backtrack dd ?b = Inr (?b\<lparr>lb_w := w'\<rparr>)" "dd \<le> w'" "w' \<le> lb_w ?b"
      "take (nat w') (lb_bytes ?b) = drop_elem (nat dd) (take (Suc (nat (lb_w ?b))) (lb_bytes ?b))"
      by auto
    have s: "Suc (nat (lb_w b - 1)) = nat (lb_w b)" using True "1.prems" by auto
    have "backtrack dd b = Inr (b\<lparr>lb_w := w'\<rparr>)"
      using True idx w'(1) by (subst backtrack.simps) simp
    moreover have "take (nat w') (lb_bytes b) = drop_elem (nat dd) (take (Suc (nat (lb_w b))) (lb_bytes b))"
      using w'(4) True "1.prems"(2) by (simp add: de s nat_less_iff)
    ultimately show ?thesis using w'(2,3) by auto
  next
    case False
    have "backtrack dd b = Inr b"
      using False idx by (subst backtrack.simps) auto
    then have "backtrack dd b = Inr (b\<lparr>lb_w := lb_w b\<rparr>)" by simp
    moreover have "take (nat (lb_w b)) (lb_bytes b) = drop_elem (nat dd) (take (Suc (nat (lb_w b))) (lb_bytes b))"
      using False "1.prems"(2,3) by (auto simp: de nat_less_iff)
    ultimately show ?thesis using "1.prems" by blast
  qed
qed

lemma copy_element_ok:
  assumes "lb_inv out" "lb_s out = path" "0 \<le> r" "r \<le> int (length path)" "lb_w out \<le> r"
  shows "\<exists>out'. copy_element path r out
        = Inr (r + int (length (takeWhile not_slash (drop (nat r) path))), out')
    \<and> lb_inv out' \<and> lb_s out' = path
    \<and> lb_w out' = lb_w out + int (length (takeWhile not_slash (drop (nat r) path)))
    \<and> lb_content out' = lb_content out @ takeWhile not_slash (drop (nat r) path)"
  using assms
proof (induction path r out rule: copy_element.induct)
  case (1 path r out)
  show ?case
  proof (cases "r < int (length path)")
    case False
    with "1.prems" show ?thesis
      by (subst copy_element.simps) simp
  next
    case True
    with "1.prems" have k: "nat r < length path" by auto
    have idx: "str_index path r = Inr (path ! nat r)"
      using "1.prems" True by (simp add: str_index_ok)
    have dr: "drop (nat r) path = path ! nat r # drop (nat (r + 1)) path"
      using k "1.prems"(3) by (simp add: Cons_nth_drop_Suc nat_add_distrib)
    show ?thesis
    proof (cases "path ! nat r = CHR ''/''")
      case sl: True
      with True idx dr show ?thesis
        using "1.prems" by (subst copy_element.simps) simp
    next
      case ns: False
      from lb_append_ok [of out "path ! nat r"] "1.prems" True
      obtain o1 where o1: "lb_append out (path ! nat r) = Inr o1" "lb_inv o1" "lb_s o1 = path"
        "lb_w o1 = lb_w out + 1" "lb_content o1 = lb_content out @ [path ! nat r]"
        by auto
      from "1.IH" [OF True idx ns o1(1) o1(2,3)] "1.prems" True o1(4)
      obtain out' where out': "copy_element path (r + 1) o1
            = Inr (r + 1 + int (length (takeWhile not_slash (drop (nat (r + 1)) path))), out')"
        "lb_inv out'" "lb_s out' = path"
        "lb_w out' = lb_w o1 + int (length (takeWhile not_slash (drop (nat (r + 1)) path)))"
        "lb_content out' = lb_content o1 @ takeWhile not_slash (drop (nat (r + 1)) path)"
        by auto
      have "copy_element path r out = copy_element path (r + 1) o1"
        using True idx ns o1(1) by (subst copy_element.simps) simp
      with out' o1(4,5) ns show ?thesis
        by (simp add: dr)
    qed
  qed
qed

lemma is_dot_ok:
  assumes "0 \<le> r" "r < int (length path)" "drop (nat r) path = c # cs"
  shows "is_dot path r = Inr (c = CHR ''.'' \<and> (cs = [] \<or> hd cs = CHR ''/''))"
proof -
  from assms have k: "nat r < length path" by auto
  from assms(3) have c: "path ! nat r = c" and cs: "cs = drop (Suc (nat r)) path"
    using k by (simp_all add: Cons_nth_drop_Suc [symmetric])
  have n1: "nat (r + 1) = Suc (nat r)" using assms(1) by simp
  have e: "cs = [] \<longleftrightarrow> r + 1 = int (length path)"
    using cs k assms(1) by auto
  have h: "hd cs = path ! Suc (nat r)" if "cs \<noteq> []"
    using that cs by (simp add: hd_drop_conv_nth)
  show ?thesis
  proof (cases "cs = []")
    case True
    with e c assms show ?thesis
      by (simp add: is_dot_def str_index_ok)
  next
    case False
    with e have "r + 1 < int (length path)" using assms(2) by auto
    with False e h c assms show ?thesis
      by (simp add: is_dot_def str_index_ok n1)
  qed
qed

lemma is_dotdot_ok:
  assumes "0 \<le> r" "r < int (length path)" "drop (nat r) path = c # cs"
    and "\<not> (c = CHR ''.'' \<and> cs = [])"
  shows "is_dotdot path r
    = Inr (c = CHR ''.'' \<and> hd cs = CHR ''.'' \<and> (tl cs = [] \<or> hd (tl cs) = CHR ''/''))"
proof (cases "c = CHR ''.''")
  case False
  from assms have k: "nat r < length path" by auto
  from assms(3) have c: "path ! nat r = c"
    using k by (simp add: Cons_nth_drop_Suc [symmetric])
  with False assms show ?thesis
    by (simp add: is_dotdot_def str_index_ok)
next
  case True
  with assms(4) obtain d ds where ds: "cs = d # ds" by (cases cs) auto
  from assms have k: "nat r < length path" by auto
  from assms(3) have c: "path ! nat r = c" and cs: "cs = drop (Suc (nat r)) path"
    using k by (simp_all add: Cons_nth_drop_Suc [symmetric])
  from cs ds have k1: "Suc (nat r) < length path"
    by (metis drop_all list.distinct(1) not_le)
  with cs ds have d: "path ! Suc (nat r) = d" and dsd: "ds = drop (Suc (Suc (nat r))) path"
    by (simp_all add: Cons_nth_drop_Suc [symmetric])
  have n1: "nat (r + 1) = Suc (nat r)" "nat (r + 2) = Suc (Suc (nat r))"
    using assms(1) by simp_all
  have r1: "r + 1 < int (length path)" using k1 assms(1) by auto
  have e: "ds = [] \<longleftrightarrow> r + 2 = int (length path)"
    using dsd k1 assms(1) by auto
  have h: "hd ds = path ! Suc (Suc (nat r))" if "ds \<noteq> []"
    using that dsd by (simp add: hd_drop_conv_nth)
  show ?thesis
  proof (cases "ds = []")
    case e1: True
    with e c d True ds r1 assms show ?thesis
      by (simp add: is_dotdot_def str_index_ok n1)
  next
    case e2: False
    with e have "r + 2 < int (length path)" using r1 by auto
    with e2 e h c d True ds r1 assms show ?thesis
      by (simp add: is_dotdot_def str_index_ok n1)
  qed
qed


lemma Clean_loop_ok:
  assumes "lb_inv out" "lb_s out = path" "0 \<le> r" "r \<le> int (length path)" "0 \<le> dotdot"
    and "lb_w out \<le> r"
    and "lb_w out = r \<longrightarrow> r = int (length path) \<or> path ! nat r = CHR ''/'' \<or> lb_w out = base_w rooted"
  shows "\<exists>out'. Clean_loop path rooted r dotdot out = Inr out' \<and> lb_inv out'
    \<and> lb_content out' = clean_abs rooted (lb_content out) (nat dotdot) (drop (nat r) path)"
  using assms
proof (induction path rooted r dotdot out rule: Clean_loop.induct)
  case (1 path rooted r dotdot out)
  note IH = "1.IH" and inv = "1.prems"(1) and s = "1.prems"(2) and r0 = "1.prems"(3)
    and rn = "1.prems"(4) and d0 = "1.prems"(5) and wr = "1.prems"(6) and J = "1.prems"(7)
  from inv have w0: "0 \<le> lb_w out" by (simp add: lb_inv_def)
  note len = length_lb_content [OF inv]
  show ?case
  proof (cases "r < int (length path)")
    case False
    with rn r0 show ?thesis
      using inv by (subst Clean_loop.simps) simp
  next
    case lt: True
    with r0 have k: "nat r < length path" by auto
    define c where "c = path ! nat r"
    define cs where "cs = drop (nat (r + 1)) path"
    have dr: "drop (nat r) path = c # cs"
      using k r0 by (simp add: c_def cs_def Cons_nth_drop_Suc nat_add_distrib)
    have idx: "str_index path r = Inr c"
      using r0 lt by (simp add: str_index_ok c_def)
    note dot = is_dot_ok [OF r0 lt dr]
    show ?thesis
    proof (cases "c = CHR ''/''")
      case True
      from IH(1) [OF lt idx True inv s] r0 lt d0 wr
      obtain out' where "Clean_loop path rooted (r + 1) dotdot out = Inr out'" "lb_inv out'"
        "lb_content out' = clean_abs rooted (lb_content out) (nat dotdot) cs"
        unfolding cs_def by auto
      moreover have "Clean_loop path rooted r dotdot out = Clean_loop path rooted (r + 1) dotdot out"
        using lt idx True by (subst Clean_loop.simps) simp
      ultimately show ?thesis using True by (simp add: dr clean_abs.simps(2))
    next
      case ns: False
      show ?thesis
      proof (cases "c = CHR ''.'' \<and> (cs = [] \<or> hd cs = CHR ''/'')")
        case True
        with dot have dot': "is_dot path r = Inr True" by simp
        from IH(2) [OF lt idx ns dot' _ inv s] r0 lt d0 wr
        obtain out' where "Clean_loop path rooted (r + 1) dotdot out = Inr out'" "lb_inv out'"
          "lb_content out' = clean_abs rooted (lb_content out) (nat dotdot) cs"
          unfolding cs_def by auto
        moreover have "Clean_loop path rooted r dotdot out = Clean_loop path rooted (r + 1) dotdot out"
          using lt idx ns dot' by (subst Clean_loop.simps) simp
        ultimately show ?thesis using True ns by (simp add: dr clean_abs.simps(2))
      next
        case nd: False
        with dot have dot': "is_dot path r = Inr False" by simp
        from nd have "\<not> (c = CHR ''.'' \<and> cs = [])" by auto
        note dotdot = is_dotdot_ok [OF r0 lt dr this]
        show ?thesis
        proof (cases "c = CHR ''.'' \<and> hd cs = CHR ''.'' \<and> (tl cs = [] \<or> hd (tl cs) = CHR ''/'')")
          case dd: True
          with dotdot have dotdot': "is_dotdot path r = Inr True" by simp
          from dd nd have csne: "cs \<noteq> []" by auto
          then have r1: "r + 1 < int (length path)"
            using r0 by (auto simp: cs_def)
          have tl: "tl cs = drop (nat (r + 2)) path"
            using r0 by (simp add: cs_def tl_drop drop_Suc nat_add_distrib)
          have J2: "r + 2 = int (length path) \<or> path ! nat (r + 2) = CHR ''/''"
          proof (cases "tl cs = []")
            case True
            with tl r1 r0 show ?thesis by auto
          next
            case False
            with dd have "hd (tl cs) = CHR ''/''" by simp
            moreover from False tl have "hd (tl cs) = path ! nat (r + 2)"
              by (simp add: hd_drop_conv_nth)
            ultimately show ?thesis by simp
          qed
          have abs: "clean_abs rooted (lb_content out) (nat dotdot) (c # cs)
            = (if length (lb_content out) > nat dotdot
               then clean_abs rooted (drop_elem (nat dotdot) (lb_content out)) (nat dotdot) (tl cs)
               else if \<not> rooted then
                 clean_abs rooted ((if lb_content out \<noteq> [] then lb_content out @ ''/'' else lb_content out) @ ''..'')
                   (length ((if lb_content out \<noteq> [] then lb_content out @ ''/'' else lb_content out) @ ''..'')) (tl cs)
               else clean_abs rooted (lb_content out) (nat dotdot) (tl cs))"
            using ns nd dd by (simp add: clean_abs.simps(2))
          show ?thesis
          proof (cases "dotdot < lb_w out")
            case True
            let ?b = "out\<lparr>lb_w := lb_w out - 1\<rparr>"
            have invb: "lb_inv ?b" using inv True d0 by (auto simp: lb_inv_def)
            from backtrack_ok [OF invb d0] True wr lt s
            obtain w' where w': "backtrack dotdot ?b = Inr (?b\<lparr>lb_w := w'\<rparr>)" "dotdot \<le> w'"
              "w' \<le> lb_w out - 1"
              "take (nat w') (lb_bytes out) = drop_elem (nat dotdot) (take (Suc (nat (lb_w out - 1))) (lb_bytes out))"
              by auto
            let ?o = "out\<lparr>lb_w := w'\<rparr>"
            have bo: "?b\<lparr>lb_w := w'\<rparr> = ?o" by simp
            have invo: "lb_inv ?o" using inv w' d0 by (auto simp: lb_inv_def)
            have "Suc (nat (lb_w out - 1)) = nat (lb_w out)"
              using True d0 by arith
            with w'(4) have co: "lb_content ?o = drop_elem (nat dotdot) (lb_content out)"
              by (simp add: lb_content_def)
            from IH(3) [OF lt idx ns dot' _ dotdot' _ True w'(1) [unfolded bo] invo] s r0 r1 d0 wr w'
            obtain out' where "Clean_loop path rooted (r + 2) dotdot ?o = Inr out'" "lb_inv out'"
              "lb_content out' = clean_abs rooted (lb_content ?o) (nat dotdot) (tl cs)"
              unfolding tl by auto
            moreover have "Clean_loop path rooted r dotdot out = Clean_loop path rooted (r + 2) dotdot ?o"
              using lt idx ns dot' dotdot' True w'(1) [unfolded bo] by (subst Clean_loop.simps) simp
            moreover have "clean_abs rooted (lb_content out) (nat dotdot) (drop (nat r) path)
                  = clean_abs rooted (lb_content ?o) (nat dotdot) (tl cs)"
              unfolding dr abs co using True d0 w0 len by simp
            ultimately show ?thesis by simp
          next
            case nb: False
            show ?thesis
            proof (cases rooted)
              case True
              from IH(5) [OF lt idx ns dot' _ dotdot' _ nb _ inv s] True r0 r1 d0 wr
              obtain out' where "Clean_loop path rooted (r + 2) dotdot out = Inr out'" "lb_inv out'"
                "lb_content out' = clean_abs rooted (lb_content out) (nat dotdot) (tl cs)"
                unfolding tl by auto
              moreover have "Clean_loop path rooted r dotdot out = Clean_loop path rooted (r + 2) dotdot out"
                using lt idx ns dot' dotdot' nb True by (subst Clean_loop.simps) simp
              moreover have "clean_abs rooted (lb_content out) (nat dotdot) (drop (nat r) path)
                  = clean_abs rooted (lb_content out) (nat dotdot) (tl cs)"
                unfolding dr abs using True nb d0 w0 len by simp
              ultimately show ?thesis by simp
            next
              case nr: False
              have wlt: "lb_w out < r" if "0 < lb_w out"
              proof -
                from that nr have "lb_w out \<noteq> base_w rooted" by (simp add: base_w_def)
                with J lt ns wr show ?thesis by (auto simp: c_def)
              qed
              obtain o1 where o1: "(if 0 < lb_w out then lb_append out (CHR ''/'') else Inr out) = Inr o1"
                "lb_inv o1" "lb_s o1 = path" "lb_w o1 \<le> r" "lb_w o1 = 0 \<or> lb_w o1 \<le> r"
                "lb_content o1 = (if lb_content out \<noteq> [] then lb_content out @ ''/'' else lb_content out)"
              proof (cases "0 < lb_w out")
                case True
                from lb_append_ok [OF inv, of "CHR ''/''"] wlt [OF True] lt s
                obtain b' where "lb_append out (CHR ''/'') = Inr b'" "lb_inv b'" "lb_s b' = path"
                  "lb_w b' = lb_w out + 1" "lb_content b' = lb_content out @ ''/''"
                  by auto
                with True wlt [OF True] len show ?thesis
                  by (intro that [of b']) auto
              next
                case False
                with w0 inv s wr len show ?thesis
                  by (intro that [of out]) auto
              qed
              from lb_append_ok [OF o1(2), of "CHR ''.''"] o1 lt
              obtain o2 where o2: "lb_append o1 (CHR ''.'') = Inr o2" "lb_inv o2" "lb_s o2 = path"
                "lb_w o2 = lb_w o1 + 1" "lb_content o2 = lb_content o1 @ ''.''"
                by auto
              from lb_append_ok [OF o2(2), of "CHR ''.''"] o2 o1 r1
              obtain o3 where o3: "lb_append o2 (CHR ''.'') = Inr o3" "lb_inv o3" "lb_s o3 = path"
                "lb_w o3 = lb_w o2 + 1" "lb_content o3 = lb_content o2 @ ''.''"
                by auto
              have w3: "0 \<le> lb_w o3" "lb_w o3 \<le> r + 2"
                using o3(4) o2(4) o1(4) o1(2) by (auto simp: lb_inv_def)
              from IH(4) [OF lt idx ns dot' _ dotdot' _ nb nr o1(1) o2(1) o3(1) o3(2,3)] r0 r1 w3 J2
              obtain out' where "Clean_loop path rooted (r + 2) (lb_w o3) o3 = Inr out'" "lb_inv out'"
                "lb_content out' = clean_abs rooted (lb_content o3) (nat (lb_w o3)) (tl cs)"
                unfolding tl by auto
              moreover have "Clean_loop path rooted r dotdot out = Clean_loop path rooted (r + 2) (lb_w o3) o3"
                using lt idx ns dot' dotdot' nb nr o1(1) o2(1) o3(1)
                by (subst Clean_loop.simps) (simp del: if_split cong: if_cong)
              moreover have "nat (lb_w o3) = length (lb_content o3)"
                using length_lb_content [OF o3(2)] by simp
              moreover have "clean_abs rooted (lb_content out) (nat dotdot) (drop (nat r) path)
                  = clean_abs rooted (lb_content o3) (length (lb_content o3)) (tl cs)"
                unfolding dr abs o3(5) o2(5) o1(6) using nr nb d0 w0 len by simp
              ultimately show ?thesis by simp
            qed
          qed
        next
          case ndd: False
          with dotdot have dotdot': "is_dotdot path r = Inr False" by simp
          let ?cond = "rooted \<and> lb_w out \<noteq> 1 \<or> \<not> rooted \<and> lb_w out \<noteq> 0"
          have cond: "?cond \<longleftrightarrow> lb_w out \<noteq> base_w rooted" by (auto simp: base_w_def)
          have condl: "?cond \<longleftrightarrow> (rooted \<and> length (lb_content out) \<noteq> 1 \<or> \<not> rooted \<and> length (lb_content out) \<noteq> 0)"
            using w0 len by auto
          obtain o1 where o1: "(if ?cond then lb_append out (CHR ''/'') else Inr out) = Inr o1"
            "lb_inv o1" "lb_s o1 = path" "lb_w o1 \<le> r"
            "lb_content o1 = (if ?cond then lb_content out @ ''/'' else lb_content out)"
          proof (cases ?cond)
            case True
            with cond J lt ns wr have "lb_w out < r" by (auto simp: c_def)
            with lb_append_ok [OF inv, of "CHR ''/''"] lt s
            obtain b' where "lb_append out (CHR ''/'') = Inr b'" "lb_inv b'" "lb_s b' = path"
              "lb_w b' = lb_w out + 1" "lb_content b' = lb_content out @ ''/''"
              by auto
            with True \<open>lb_w out < r\<close> show ?thesis
              by (intro that [of b']) auto
          next
            case False
            with inv s wr show ?thesis
              by (intro that [of out]) auto
          qed
          let ?tw = "takeWhile not_slash (drop (nat r) path)"
          let ?r' = "r + int (length ?tw)"
          from copy_element_ok [OF o1(2,3) r0 rn o1(4)]
          obtain o2 where o2: "copy_element path r o1 = Inr (?r', o2)" "lb_inv o2" "lb_s o2 = path"
            "lb_w o2 = lb_w o1 + int (length ?tw)" "lb_content o2 = lb_content o1 @ ?tw"
            by auto
          have dr': "drop (nat ?r') path = dropWhile not_slash (drop (nat r) path)"
            using r0 by (simp add: nat_add_distrib dropWhile_eq_drop add.commute)
          have "length ?tw \<le> length (drop (nat r) path)"
            by (rule length_takeWhile_le)
          then have r'n: "?r' \<le> int (length path)" using r0 k by auto
          have J': "?r' = int (length path) \<or> path ! nat ?r' = CHR ''/''"
          proof (cases "drop (nat ?r') path = []")
            case True
            then have "length path \<le> nat ?r'" by simp
            with r'n r0 show ?thesis by arith
          next
            case False
            then have "hd (drop (nat ?r') path) = path ! nat ?r'"
              by (simp add: hd_drop_conv_nth)
            moreover from False have "\<not> not_slash (hd (drop (nat ?r') path))"
              unfolding dr' by (rule hd_dropWhile)
            ultimately show ?thesis by simp
          qed
          from IH(6) [OF lt idx ns dot' _ dotdot' _ o1(1) o2(1) refl o2(2,3)] r0 r'n d0 o2(4) o1(4) J'
          obtain out' where "Clean_loop path rooted ?r' dotdot o2 = Inr out'" "lb_inv out'"
            "lb_content out' = clean_abs rooted (lb_content o2) (nat dotdot) (drop (nat ?r') path)"
            by auto
          moreover have "Clean_loop path rooted r dotdot out = Clean_loop path rooted ?r' dotdot o2"
            using lt idx ns dot' dotdot' o1(1) o2(1)
            by (subst Clean_loop.simps) (simp del: if_split cong: if_cong)
          moreover have "clean_abs rooted (lb_content out) (nat dotdot) (drop (nat r) path)
            = clean_abs rooted (lb_content o2) (nat dotdot) (drop (nat ?r') path)"
          proof -
            have "clean_abs rooted (lb_content out) (nat dotdot) (drop (nat r) path)
              = clean_abs rooted
                  ((if rooted \<and> length (lb_content out) \<noteq> 1 \<or> \<not> rooted \<and> length (lb_content out) \<noteq> 0
                    then lb_content out @ ''/'' else lb_content out) @ ?tw)
                  (nat dotdot) (dropWhile not_slash (drop (nat r) path))"
              using clean_abs_default [OF ns nd ndd, of rooted "lb_content out" "nat dotdot"]
              by (simp only: dr)
            also have "\<dots> = clean_abs rooted (lb_content o2) (nat dotdot) (drop (nat ?r') path)"
              by (simp only: dr' o2(5) o1(5) condl)
            finally show ?thesis .
          qed
          ultimately show ?thesis by simp
        qed
      qed
    qed
  qed
qed


lemma clean_abs_split:
  "clean_abs rooted (render rooted []) (dd_of rooted []) s = render rooted (resolve rooted (split_slash s))"
proof -
  have "clean_abs rooted (render rooted []) (dd_of rooted []) (join_slash (split_slash s))
    = render rooted (foldl (resolve_step rooted) [] (split_slash s))"
    by (rule clean_abs_segs) (auto dest: split_slash_no_slash)
  then show ?thesis by (simp add: resolve_def)
qed

lemma resolve_empty_first: "resolve rooted ([] # segs) = resolve rooted segs"
  by (simp add: resolve_def resolve_step_def)

lemma path_Clean_normalized: "path_Clean path = Inr (normalized (is_rooted path) (split_slash path))"
proof (cases path)
  case Nil
  then show ?thesis
    by (simp add: path_Clean_def normalized_def is_rooted_def resolve_def resolve_step_def render_def)
next
  case (Cons c cs)
  let ?out = "\<lparr>lb_s = path, lb_buf = None, lb_w = 0\<rparr>"
  have inv0: "lb_inv ?out" by (simp add: lb_inv_def lb_bytes_def)
  have c0: "lb_content ?out = []" by (simp add: lb_content_def)
  have idx: "str_index path 0 = Inr c" using Cons by (simp add: str_index_def)
  show ?thesis
  proof (cases "c = CHR ''/''")
    case True
    have "lb_w ?out < int (length (lb_s ?out))" using Cons by simp
    from lb_append_ok [OF inv0 this, of "CHR ''/''"]
    obtain o1 where o1: "lb_append ?out (CHR ''/'') = Inr o1" "lb_inv o1" "lb_s o1 = path"
      "lb_w o1 = 1" "lb_content o1 = ''/''"
      unfolding c0 by auto
    have "\<exists>out'. Clean_loop path True 1 1 o1 = Inr out' \<and> lb_inv out'
        \<and> lb_content out' = clean_abs True (lb_content o1) (nat 1) (drop (nat 1) path)"
      using o1 Cons by (intro Clean_loop_ok) (auto simp: base_w_def)
    then obtain o2 where o2: "Clean_loop path True 1 1 o1 = Inr o2" "lb_inv o2"
      "lb_content o2 = clean_abs True ''/'' 1 cs"
      using o1(5) Cons by auto
    have "lb_content o2 = render True (resolve True (split_slash cs))"
      using clean_abs_split [of True cs] o2(3) by simp
    then have r: "lb_content o2 = render True (resolve True (split_slash path))"
      using True Cons by (simp add: resolve_empty_first)
    then have ne: "lb_content o2 \<noteq> []" by (simp add: render_def)
    with length_lb_content [OF o2(2)] have "lb_w o2 \<noteq> 0" by auto
    then have "path_Clean path = Inr (lb_content o2)"
      using Cons idx True o1(1) o2(1) lb_string_ok [OF o2(2)]
      by (simp add: path_Clean_def)
    with r ne True Cons show ?thesis
      by (simp add: normalized_def is_rooted_def)
  next
    case False
    have "\<exists>out'. Clean_loop path False 0 0 ?out = Inr out' \<and> lb_inv out'
        \<and> lb_content out' = clean_abs False (lb_content ?out) (nat 0) (drop (nat 0) path)"
      using inv0 by (intro Clean_loop_ok) (auto simp: base_w_def)
    then obtain o2 where o2: "Clean_loop path False 0 0 ?out = Inr o2" "lb_inv o2"
      "lb_content o2 = clean_abs False [] 0 path"
      using c0 by auto
    have r: "lb_content o2 = render False (resolve False (split_slash path))"
      using clean_abs_split [of False path] o2(3) by simp
    have w: "lb_w o2 = 0 \<longleftrightarrow> lb_content o2 = []"
      using length_lb_content [OF o2(2)] o2(2) by (auto simp: lb_inv_def)
    have "path_Clean path = Inr (if lb_content o2 = [] then ''.'' else lb_content o2)"
      using Cons idx False o2(1) lb_string_ok [OF o2(2)] w
      by (simp add: path_Clean_def)
    with r False Cons show ?thesis
      by (simp add: normalized_def is_rooted_def)
  qed
qed

lemma path_Join_spec:
  assumes "p \<noteq> []" "hd p \<noteq> CHR ''/''"
  shows "path_Join [root, p] = Inr (spec_join root p)"
proof (cases "root = []")
  case True
  have "path_Join [root, p] = path_Clean p"
    using True assms by (simp add: path_Join_def)
  moreover have "is_rooted p = is_rooted root"
    using True assms by (simp add: is_rooted_def)
  ultimately show ?thesis
    using True by (simp add: path_Clean_normalized spec_join_def normalized_def resolve_empty_first)
next
  case False
  have "path_Join [root, p] = path_Clean (root @ CHR ''/'' # p)"
    using False assms by (simp add: path_Join_def)
  moreover have "is_rooted (root @ CHR ''/'' # p) = is_rooted root"
    using False by (simp add: is_rooted_def)
  ultimately show ?thesis
    by (simp add: path_Clean_normalized spec_join_def split_slash_append)
qed

subsection \<open>\<^verbatim>\<open>canonicalGo\<close> against the spec's join\<close>

lemma strings_HasPrefix_dot: "strings_HasPrefix p ''.'' \<longleftrightarrow> p \<noteq> [] \<and> hd p = CHR ''.''"
  by (cases p) (auto simp: strings_HasPrefix_def)

lemma hd_cons_first: "hd (cons_first c segs) = c # (if segs = [] then [] else hd segs)"
  by (cases segs) auto

lemma hd_split_slash: "hd (split_slash p) = takeWhile not_slash p"
  by (induction p) (auto simp: hd_cons_first)

lemma relative_marker_iff:
  "relative_marker p \<longleftrightarrow>
     p = ''.'' \<or> p = ''..'' \<or> strings_HasPrefix p ''./'' \<or> strings_HasPrefix p ''../''"
proof -
  have 1: "takeWhile not_slash p = ''.'' \<longleftrightarrow> p = ''.'' \<or> strings_HasPrefix p ''./''"
  proof (cases p)
    case Nil
    then show ?thesis by (simp add: strings_HasPrefix_def)
  next
    case (Cons a q)
    then show ?thesis
      by (cases q) (auto simp: strings_HasPrefix_def split: if_splits)
  qed
  have 2: "takeWhile not_slash p = ''..'' \<longleftrightarrow> p = ''..'' \<or> strings_HasPrefix p ''../''"
  proof (cases p)
    case Nil
    then show ?thesis by (simp add: strings_HasPrefix_def)
  next
    case (Cons a q)
    show ?thesis
    proof (cases q)
      case Nil
      with Cons show ?thesis by (auto simp: strings_HasPrefix_def)
    next
      case (Cons b q')
      with \<open>p = a # q\<close> show ?thesis
        by (cases q') (auto simp: strings_HasPrefix_def split: if_splits)
    qed
  qed
  show ?thesis
    unfolding relative_marker_def hd_split_slash 1 2 by blast
qed

lemma canonicalGo_dot:
  assumes "strings_HasPrefix pkgPath ''.''"
  shows "canonicalGo p pkgPath = Inr (spec_join (mod_Path (p_mod p)) pkgPath)"
proof -
  from assms have "pkgPath \<noteq> []" "hd pkgPath \<noteq> CHR ''/''"
    by (auto simp: strings_HasPrefix_dot)
  from path_Join_spec [OF this] assms show ?thesis
    by (simp add: canonicalGo_def)
qed

lemma spec_join_sub: "spec_join ''example.com/proj'' ''./sub'' = ''example.com/proj/sub''"
  by code_simp

lemma spec_join_sibling: "spec_join ''example.com/proj/pkg'' ''../sibling'' = ''example.com/proj/sibling''"
  by code_simp

lemma spec_join_foo: "spec_join ''example.com/proj'' ''.foo'' = ''example.com/proj/.foo''"
  by code_simp

lemma spec_join_dots_x: "spec_join ''example.com/proj'' ''...x'' = ''example.com/proj/...x''"
  by code_simp

lemma spec_join_escape: "spec_join ''example.com/proj'' ''../../../x'' = ''../x''"
  by code_simp

lemma spec_join_app_foo: "spec_join ''example.com/app'' ''.foo'' = ''example.com/app/.foo''"
  by code_simp

section \<open>The claims\<close>

subsection \<open>C1: paths without a relative marker\<close>

text \<open>
  Claim C1 says that a raw import path that does not begin with a relative-path marker (a
  leading \<^verbatim>\<open>.\<close> component such as \<^verbatim>\<open>./\<close> or \<^verbatim>\<open>../\<close>) is returned unchanged.  The code
  tests the first byte only, so a path such as \<^verbatim>\<open>.foo\<close>, whose first component is not \<^verbatim>\<open>.\<close>
  or \<^verbatim>\<open>..\<close>, is joined to the module's root all the same.
\<close>

theorem canonicalGo_leading_dot_counterexample:
  "\<not> relative_marker ''.foo''
   \<and> canonicalGo sample_parser ''.foo'' = Inr ''example.com/app/.foo''
   \<and> canonicalGo sample_parser ''.foo'' \<noteq> Inr ''.foo''"
proof -
  have "\<not> relative_marker ''.foo''"
    by (simp add: relative_marker_iff strings_HasPrefix_def)
  moreover have "canonicalGo sample_parser ''.foo'' = Inr ''example.com/app/.foo''"
    by (simp add: canonicalGo_dot strings_HasPrefix_def sample_parser_def spec_join_app_foo)
  ultimately show ?thesis by simp
qed

text \<open>
  Claim C1, amended.  A raw import path whose first byte is not \<^verbatim>\<open>.\<close> (the empty path
  included) is returned unchanged, for every module.
\<close>

theorem canonicalGo_no_dot:
  assumes "\<not> strings_HasPrefix pkgPath ''.''"
  shows "canonicalGo p pkgPath = Inr pkgPath"
  using assms by (simp add: canonicalGo_def)

theorem canonicalGo_no_dot_witness:
  "\<not> strings_HasPrefix ''fmt'' ''.'' \<and> canonicalGo sample_parser ''fmt'' = Inr ''fmt''"
proof -
  have h: "\<not> strings_HasPrefix ''fmt'' ''.''" by (simp add: strings_HasPrefix_def)
  from canonicalGo_no_dot [OF h, of sample_parser] h show ?thesis by simp
qed

subsection \<open>C2: relative paths\<close>

text \<open>
  Claim C2.  For a raw import path that begins with \<^verbatim>\<open>./\<close> or \<^verbatim>\<open>../\<close> and every module,
  \<^verbatim>\<open>canonicalGo\<close> returns the normalized slash-join of the module's root path and the raw
  path, with \<^verbatim>\<open>.\<close> segments removed and \<^verbatim>\<open>..\<close> segments resolved upward.  With the root
  \<^verbatim>\<open>example.com/proj\<close> the path \<^verbatim>\<open>./sub\<close> gives \<^verbatim>\<open>example.com/proj/sub\<close>, and with the root
  \<^verbatim>\<open>example.com/proj/pkg\<close> the path \<^verbatim>\<open>../sibling\<close> gives \<^verbatim>\<open>example.com/proj/sibling\<close>.
\<close>

theorem canonicalGo_relative:
  assumes "strings_HasPrefix pkgPath ''./'' \<or> strings_HasPrefix pkgPath ''../''"
  shows "canonicalGo p pkgPath = Inr (spec_join (mod_Path (p_mod p)) pkgPath)
    \<and> canonicalGo (p\<lparr>p_mod := \<lparr>mod_Path = ''example.com/proj''\<rparr>\<rparr>) ''./sub''
        = Inr ''example.com/proj/sub''
    \<and> canonicalGo (p\<lparr>p_mod := \<lparr>mod_Path = ''example.com/proj/pkg''\<rparr>\<rparr>) ''../sibling''
        = Inr ''example.com/proj/sibling''"
proof -
  from assms have "strings_HasPrefix pkgPath ''.''"
    by (cases pkgPath) (auto simp: strings_HasPrefix_def)
  then have "canonicalGo p pkgPath = Inr (spec_join (mod_Path (p_mod p)) pkgPath)"
    by (rule canonicalGo_dot)
  moreover have "canonicalGo (p\<lparr>p_mod := \<lparr>mod_Path = ''example.com/proj''\<rparr>\<rparr>) ''./sub''
        = Inr ''example.com/proj/sub''"
    by (simp add: canonicalGo_dot strings_HasPrefix_def spec_join_sub)
  moreover have "canonicalGo (p\<lparr>p_mod := \<lparr>mod_Path = ''example.com/proj/pkg''\<rparr>\<rparr>) ''../sibling''
        = Inr ''example.com/proj/sibling''"
    by (simp add: canonicalGo_dot strings_HasPrefix_def spec_join_sibling)
  ultimately show ?thesis by simp
qed

theorem canonicalGo_relative_witness:
  "(strings_HasPrefix ''./util'' ''./'' \<or> strings_HasPrefix ''./util'' ''../'')
   \<and> canonicalGo sample_parser ''./util'' = Inr (spec_join ''example.com/app'' ''./util'')
   \<and> spec_join ''example.com/app'' ''./util'' = ''example.com/app/util''"
proof -
  have h: "strings_HasPrefix ''./util'' ''./'' \<or> strings_HasPrefix ''./util'' ''../''"
    by (simp add: strings_HasPrefix_def)
  have v: "spec_join ''example.com/app'' ''./util'' = ''example.com/app/util''"
    by code_simp
  have m: "mod_Path (p_mod sample_parser) = ''example.com/app''"
    by (simp add: sample_parser_def)
  from canonicalGo_relative [OF h, of sample_parser, unfolded m] h v
  show ?thesis by blast
qed

subsection \<open>C7: canonicalization never fails\<close>

text \<open>
  Claim C7.  For every raw import path and every module, \<^verbatim>\<open>canonicalGo\<close> returns a string:
  no index or slice of \<^verbatim>\<open>path.Join\<close> and \<^verbatim>\<open>path.Clean\<close> is out of range, and their loops
  end.  It reads the module's path and writes nothing of the parser.  This holds as well
  for a relative path whose \<^verbatim>\<open>..\<close> segments lead above the module's root: with the root
  \<^verbatim>\<open>example.com/proj\<close> the path \<^verbatim>\<open>../../../x\<close> gives \<^verbatim>\<open>../x\<close>.
\<close>

theorem canonicalGo_total:
  "(\<exists>s. canonicalGo p pkgPath = Inr s)
   \<and> canonicalGo (p\<lparr>p_mod := \<lparr>mod_Path = ''example.com/proj''\<rparr>\<rparr>) ''../../../x'' = Inr ''../x''"
proof -
  have "\<exists>s. canonicalGo p pkgPath = Inr s"
  proof (cases "strings_HasPrefix pkgPath ''.''")
    case True
    then show ?thesis by (simp add: canonicalGo_dot)
  next
    case False
    then show ?thesis by (simp add: canonicalGo_def)
  qed
  moreover have "canonicalGo (p\<lparr>p_mod := \<lparr>mod_Path = ''example.com/proj''\<rparr>\<rparr>) ''../../../x'' = Inr ''../x''"
    by (simp add: canonicalGo_dot strings_HasPrefix_def spec_join_escape)
  ultimately show ?thesis by simp
qed

subsection \<open>C10: a bare leading dot\<close>

text \<open>
  Claim C10.  For every module and every raw import path whose first byte is \<^verbatim>\<open>.\<close>,
  \<^verbatim>\<open>canonicalGo\<close> returns the slash-join of the module's root path with it, also when the
  path has no \<^verbatim>\<open>./\<close> or \<^verbatim>\<open>../\<close> marker: with the root \<^verbatim>\<open>example.com/proj\<close> the path
  \<^verbatim>\<open>.foo\<close> gives \<^verbatim>\<open>example.com/proj/.foo\<close> and \<^verbatim>\<open>...x\<close> gives \<^verbatim>\<open>example.com/proj/...x\<close>.
\<close>

theorem canonicalGo_bare_dot:
  assumes "pkgPath \<noteq> [] \<and> hd pkgPath = CHR ''.''"
  shows "canonicalGo p pkgPath = path_Join [mod_Path (p_mod p), pkgPath]
    \<and> canonicalGo p pkgPath = Inr (spec_join (mod_Path (p_mod p)) pkgPath)
    \<and> \<not> relative_marker ''.foo''
    \<and> canonicalGo (p\<lparr>p_mod := \<lparr>mod_Path = ''example.com/proj''\<rparr>\<rparr>) ''.foo''
        = Inr ''example.com/proj/.foo''
    \<and> \<not> relative_marker ''...x''
    \<and> canonicalGo (p\<lparr>p_mod := \<lparr>mod_Path = ''example.com/proj''\<rparr>\<rparr>) ''...x''
        = Inr ''example.com/proj/...x''"
proof -
  from assms have h: "strings_HasPrefix pkgPath ''.''"
    by (simp add: strings_HasPrefix_dot)
  then have "canonicalGo p pkgPath = path_Join [mod_Path (p_mod p), pkgPath]"
    by (simp add: canonicalGo_def)
  moreover note canonicalGo_dot [OF h, of p]
  moreover have "\<not> relative_marker ''.foo''" "\<not> relative_marker ''...x''"
    by (simp_all add: relative_marker_iff strings_HasPrefix_def)
  moreover have "canonicalGo (p\<lparr>p_mod := \<lparr>mod_Path = ''example.com/proj''\<rparr>\<rparr>) ''.foo''
        = Inr ''example.com/proj/.foo''"
    by (simp add: canonicalGo_dot strings_HasPrefix_def spec_join_foo)
  moreover have "canonicalGo (p\<lparr>p_mod := \<lparr>mod_Path = ''example.com/proj''\<rparr>\<rparr>) ''...x''
        = Inr ''example.com/proj/...x''"
    by (simp add: canonicalGo_dot strings_HasPrefix_def spec_join_dots_x)
  ultimately show ?thesis by simp
qed

theorem canonicalGo_bare_dot_witness:
  "(''.foo'' \<noteq> [] \<and> hd ''.foo'' = CHR ''.'')
   \<and> canonicalGo sample_parser ''.foo'' = path_Join [''example.com/app'', ''.foo'']
   \<and> canonicalGo sample_parser ''.foo'' = Inr (spec_join ''example.com/app'' ''.foo'')
   \<and> spec_join ''example.com/app'' ''.foo'' = ''example.com/app/.foo''"
proof -
  have h: "''.foo'' \<noteq> [] \<and> hd ''.foo'' = CHR ''.''" by simp
  have m: "mod_Path (p_mod sample_parser) = ''example.com/app''"
    by (simp add: sample_parser_def)
  from canonicalGo_bare_dot [OF h, of sample_parser, unfolded m] h spec_join_app_foo
  show ?thesis by blast
qed

subsection \<open>C3: a header that does not parse\<close>

text \<open>
  Claim C3.  If \<^verbatim>\<open>parser.ParseFile\<close> fails on the file, \<^verbatim>\<open>ParseGoImport\<close> returns that
  very error and the accumulated dependency set is what it was before the call: nothing
  of the failing file is inserted and the entries of earlier calls remain.  (Of the
  parser only the file set can differ, by what \<^verbatim>\<open>ParseFile\<close> did to it.)
\<close>

theorem ParseGoImport_parse_error:
  assumes "ParseFile (p_fset p) gopfile = (fset', Inl err)"
  shows "ParseGoImport ParseFile Unquote p gopfile = (Inr (Some err), p\<lparr>p_fset := fset'\<rparr>)
    \<and> p_imports (snd (ParseGoImport ParseFile Unquote p gopfile)) = p_imports p"
  using assms by (simp add: ParseGoImport_def)

theorem ParseGoImport_parse_error_witness:
  "sample_ParseFile (p_fset sample_parser) ''c.go''
      = ([''c.go''], Inl (Error ''c.go:1:1: expected package, found EOF''))
   \<and> ParseGoImport sample_ParseFile sample_Unquote sample_parser ''c.go''
      = (Inr (Some (Error ''c.go:1:1: expected package, found EOF'')),
         sample_parser\<lparr>p_fset := [''c.go'']\<rparr>)
   \<and> p_imports (snd (ParseGoImport sample_ParseFile sample_Unquote sample_parser ''c.go''))
      = [''fmt'' \<mapsto> ()]"
proof -
  have h: "sample_ParseFile (p_fset sample_parser) ''c.go''
      = ([''c.go''], Inl (Error ''c.go:1:1: expected package, found EOF''))"
    by (simp add: sample_ParseFile_def sample_parser_def)
  show ?thesis
    using h ParseGoImport_parse_error [where ParseFile = sample_ParseFile
        and Unquote = sample_Unquote and p = sample_parser and gopfile = "''c.go''"]
    by (simp add: sample_parser_def)
qed

subsection \<open>C4: the literal decoder\<close>

text \<open>
  Claim C4.  \<^verbatim>\<open>goToString\<close> returns the decoded string when the kind of the token is
  \<^verbatim>\<open>token.STRING\<close> and \<^verbatim>\<open>strconv.Unquote\<close> succeeds on its text.  When the kind is another
  one, or when unquoting fails, it panics with its fixed message: it has no error
  result, so the failure is never a returned error.
\<close>

theorem goToString_result:
  "(Kind l = token_STRING \<and> Unquote (Value l) = Inr s \<longrightarrow> goToString Unquote l = Inr s) \<and>
   (Kind l \<noteq> token_STRING \<or> (\<exists>err. Unquote (Value l) = Inl err) \<longrightarrow>
      goToString Unquote l = Inl (PanicValue ''TODO: toString - convert ast.BasicLit to string failed''))"
  by (auto simp: goToString_def)

theorem goToString_result_witness:
  "Kind \<lparr>Kind = token_STRING, Value = ''\"fmt\"''\<rparr> = token_STRING
   \<and> sample_Unquote (Value \<lparr>Kind = token_STRING, Value = ''\"fmt\"''\<rparr>) = Inr ''fmt''
   \<and> goToString sample_Unquote \<lparr>Kind = token_STRING, Value = ''\"fmt\"''\<rparr> = Inr ''fmt''
   \<and> Kind \<lparr>Kind = token_INT, Value = ''1''\<rparr> \<noteq> token_STRING
   \<and> goToString sample_Unquote \<lparr>Kind = token_INT, Value = ''1''\<rparr>
       = Inl (PanicValue ''TODO: toString - convert ast.BasicLit to string failed'')
   \<and> sample_Unquote (Value \<lparr>Kind = token_STRING, Value = [CHR 0x22, CHR 0x5C, CHR ''q'', CHR 0x22]\<rparr>)
       = Inl (Error ''invalid syntax'')
   \<and> goToString sample_Unquote \<lparr>Kind = token_STRING, Value = [CHR 0x22, CHR 0x5C, CHR ''q'', CHR 0x22]\<rparr>
       = Inl (PanicValue ''TODO: toString - convert ast.BasicLit to string failed'')"
  using goToString_result [of "\<lparr>Kind = token_STRING, Value = ''\"fmt\"''\<rparr>" sample_Unquote "''fmt''"]
    goToString_result [of "\<lparr>Kind = token_INT, Value = ''1''\<rparr>" sample_Unquote]
    goToString_result [of "\<lparr>Kind = token_STRING, Value = [CHR 0x22, CHR 0x5C, CHR ''q'', CHR 0x22]\<rparr>" sample_Unquote]
  by (simp add: sample_Unquote_def)

subsection \<open>C5: parsing a file twice\<close>

text \<open>
  Claim C5.  When a call of \<^verbatim>\<open>ParseGoImport\<close> on a file returns \<^verbatim>\<open>nil\<close>, a second call on
  the same file (its header parsing to the same declarations) returns \<^verbatim>\<open>nil\<close> too and
  leaves the accumulated dependency set as the first call left it; and inserting a
  canonical path that is already present leaves the parser as it is.
\<close>

theorem ParseGoImport_twice:
  assumes "header_of_file_only ParseFile"
    and "ParseGoImport ParseFile Unquote p gopfile = (Inr None, p1)"
  shows "ParseGoImport ParseFile Unquote p1 gopfile
           = (Inr None, p1\<lparr>p_fset := fst (ParseFile (p_fset p1) gopfile)\<rparr>)
    \<and> p_imports (snd (ParseGoImport ParseFile Unquote p1 gopfile)) = p_imports p1
    \<and> (\<forall>spec k. pkgPath_of Unquote p spec = Inr k \<and> k \<in> dom (p_imports p)
          \<longrightarrow> importGo Unquote p spec = Inr p)"
proof -
  let ?q = "p\<lparr>p_fset := fst (ParseFile (p_fset p) gopfile)\<rparr>"
  let ?q1 = "p1\<lparr>p_fset := fst (ParseFile (p_fset p1) gopfile)\<rparr>"
  from assms(2) obtain f where f: "snd (ParseFile (p_fset p) gopfile) = Inr f"
    and loop: "importGo_loop Unquote ?q (Imports f) = (Inr (), p1)"
    by (auto simp: ParseGoImport_nil_iff)
  from assms(1) have f1: "snd (ParseFile (p_fset p1) gopfile) = Inr f"
    using f unfolding header_of_file_only_def by metis
  have m: "p_mod ?q1 = p_mod ?q"
    using importGo_loop_state [of Unquote ?q "Imports f"] loop by simp
  have "\<forall>spec\<in>set (Imports f). \<exists>k. pkgPath_of Unquote ?q1 spec = Inr k \<and> k \<in> dom (p_imports ?q1)"
  proof
    fix spec assume spec: "spec \<in> set (Imports f)"
    with importGo_loop_Inr [OF loop] obtain k where k: "pkgPath_of Unquote ?q spec = Inr k"
      by blast
    with spec importGo_loop_Inr [OF loop] have "k \<in> dom (p_imports p1)"
      by blast
    with k show "\<exists>k. pkgPath_of Unquote ?q1 spec = Inr k \<and> k \<in> dom (p_imports ?q1)"
      by (simp add: pkgPath_of_mod [OF m])
  qed
  then have "importGo_loop Unquote ?q1 (Imports f) = (Inr (), ?q1)"
    by (rule importGo_loop_present)
  with f1 have call: "ParseGoImport ParseFile Unquote p1 gopfile = (Inr None, ?q1)"
    by (simp add: ParseGoImport_nil_iff)
  have noop: "importGo Unquote p spec = Inr p"
    if "pkgPath_of Unquote p spec = Inr k" "k \<in> dom (p_imports p)" for spec k
  proof -
    from that(2) have "(p_imports p)(k \<mapsto> ()) = p_imports p" by (auto intro: unit_map_eqI)
    with that(1) show ?thesis by (simp add: importGo_Inr_iff)
  qed
  from call noop show ?thesis by auto
qed

theorem ParseGoImport_twice_witness:
  "header_of_file_only sample_ParseFile
   \<and> ParseGoImport sample_ParseFile sample_Unquote sample_parser ''a.go''
       = (Inr None, sample_after_a [''a.go''])
   \<and> ParseGoImport sample_ParseFile sample_Unquote (sample_after_a [''a.go'']) ''a.go''
       = (Inr None, sample_after_a [''a.go'', ''a.go''])
   \<and> p_imports (snd (ParseGoImport sample_ParseFile sample_Unquote (sample_after_a [''a.go'']) ''a.go''))
       = p_imports (sample_after_a [''a.go''])
   \<and> pkgPath_of sample_Unquote sample_parser (lit ''\"fmt\"'') = Inr ''fmt''
   \<and> ''fmt'' \<in> dom (p_imports sample_parser)
   \<and> importGo sample_Unquote sample_parser (lit ''\"fmt\"'') = Inr sample_parser"
proof -
  have a: "ParseGoImport sample_ParseFile sample_Unquote sample_parser ''a.go''
       = (Inr None, sample_after_a [''a.go''])"
    using sample_call_a_gen [of sample_parser]
    by (simp add: sample_parser_def sample_after_a_def)
  have k: "pkgPath_of sample_Unquote sample_parser (lit ''\"fmt\"'') = Inr ''fmt''"
    by (simp add: pkgPath_of_def lit_def goToString_def sample_Unquote_def sample_canonicalGo_fmt)
  have d: "''fmt'' \<in> dom (p_imports sample_parser)"
    by (simp add: sample_parser_def)
  from ParseGoImport_twice [OF sample_header_of_file_only a] a k d sample_header_of_file_only
  show ?thesis
    by (simp add: sample_after_a_def sample_ParseFile_def)
qed

subsection \<open>C6: the order of the calls\<close>

text \<open>
  Claim C6.  For two files \<open>A\<close> and \<open>B\<close>, the calls on \<open>A\<close> then \<open>B\<close> and the calls on \<open>B\<close>
  then \<open>A\<close> end with the same accumulated dependency set; and after any sequence of
  calls that return, the set is the one before them united with the canonicalized import
  set of each call, which does not depend on the order or on repetitions.
\<close>

theorem ParseGoImports_order_independent:
  assumes "header_of_file_only ParseFile"
  shows "(ParseGoImports ParseFile Unquote p [A, B] = (Inr errs, p')
          \<and> ParseGoImports ParseFile Unquote p [B, A] = (Inr errs', p'')
          \<longrightarrow> p_imports p' = p_imports p'')
    \<and> (ParseGoImports ParseFile Unquote p gopfiles = (Inr errs, p')
          \<longrightarrow> dom (p_imports p')
              = dom (p_imports p) \<union> (\<Union>gopfile\<in>set gopfiles. call_imports ParseFile Unquote p gopfile))"
proof (intro conjI impI)
  assume "ParseGoImports ParseFile Unquote p [A, B] = (Inr errs, p')
      \<and> ParseGoImports ParseFile Unquote p [B, A] = (Inr errs', p'')"
  then have "dom (p_imports p') = dom (p_imports p'')"
    using ParseGoImports_dom [OF assms, of Unquote p "[A, B]" errs p']
      ParseGoImports_dom [OF assms, of Unquote p "[B, A]" errs' p'']
    by auto
  then show "p_imports p' = p_imports p''" by (rule unit_map_eqI)
next
  assume "ParseGoImports ParseFile Unquote p gopfiles = (Inr errs, p')"
  from ParseGoImports_dom [OF assms this]
  show "dom (p_imports p') = dom (p_imports p) \<union> (\<Union>gopfile\<in>set gopfiles. call_imports ParseFile Unquote p gopfile)"
    by simp
qed

theorem ParseGoImports_order_independent_witness:
  "header_of_file_only sample_ParseFile
   \<and> ParseGoImports sample_ParseFile sample_Unquote sample_parser [''a.go'', ''b.go'']
       = (Inr [None, None], sample_after_ab [''b.go'', ''a.go''])
   \<and> ParseGoImports sample_ParseFile sample_Unquote sample_parser [''b.go'', ''a.go'']
       = (Inr [None, None], sample_after_ab [''a.go'', ''b.go''])
   \<and> p_imports (sample_after_ab [''b.go'', ''a.go'']) = p_imports (sample_after_ab [''a.go'', ''b.go''])
   \<and> dom (p_imports (sample_after_ab [''b.go'', ''a.go'']))
       = dom (p_imports sample_parser)
         \<union> (\<Union>gopfile\<in>set [''a.go'', ''b.go''].
              call_imports sample_ParseFile sample_Unquote sample_parser gopfile)"
proof -
  have ab: "ParseGoImports sample_ParseFile sample_Unquote sample_parser [''a.go'', ''b.go'']
       = (Inr [None, None], sample_after_ab [''b.go'', ''a.go''])"
    by (simp add: sample_parser_def sample_call_a_gen sample_call_b_gen sample_after_ab_def)
      (auto simp: fun_eq_iff)
  have ba: "ParseGoImports sample_ParseFile sample_Unquote sample_parser [''b.go'', ''a.go'']
       = (Inr [None, None], sample_after_ab [''a.go'', ''b.go''])"
    by (simp add: sample_parser_def sample_call_a_gen sample_call_b_gen sample_after_ab_def)
      (auto simp: fun_eq_iff)
  from ParseGoImports_order_independent [OF sample_header_of_file_only,
      of sample_Unquote sample_parser "''a.go''" "''b.go''" "[None, None]"
        "sample_after_ab [''b.go'', ''a.go'']" "[None, None]" "sample_after_ab [''a.go'', ''b.go'']"
        "[''a.go'', ''b.go'']"]
    ab ba sample_header_of_file_only
  show ?thesis by blast
qed

subsection \<open>C8: the dependency set only grows\<close>

text \<open>
  Claim C8.  However a call of \<^verbatim>\<open>ParseGoImport\<close> ends (it returns \<^verbatim>\<open>nil\<close>, it returns an
  error, or it panics), every key of the accumulated dependency set before the call is a
  key of it after the call.
\<close>

theorem ParseGoImport_monotonic:
  "p_imports p \<subseteq>\<^sub>m p_imports (snd (ParseGoImport ParseFile Unquote p gopfile)) \<and>
   dom (p_imports p) \<subseteq> dom (p_imports (snd (ParseGoImport ParseFile Unquote p gopfile)))"
  using ParseGoImport_state [of ParseFile Unquote p gopfile] by (simp add: map_le_implies_dom_le)

theorem ParseGoImport_monotonic_witness:
  "p_imports sample_parser
     \<subseteq>\<^sub>m p_imports (snd (ParseGoImport sample_ParseFile sample_Unquote sample_parser ''a.go''))
   \<and> dom (p_imports sample_parser)
     \<subseteq> dom (p_imports (snd (ParseGoImport sample_ParseFile sample_Unquote sample_parser ''a.go'')))
   \<and> dom (p_imports (snd (ParseGoImport sample_ParseFile sample_Unquote sample_parser ''a.go'')))
     = {''fmt'', ''example.com/app/util''}"
  using ParseGoImport_monotonic [of sample_parser sample_ParseFile sample_Unquote "''a.go''"]
    sample_call_a_gen [of sample_parser]
  by (auto simp: sample_parser_def)

end
